theory Spec2Isabelle
  imports Main "HOL-Library.Char_ord" "HOL-Library.List_Lexorder" "HOL-Library.Sublist"
begin

section \<open>Configuration values and their textual form\<close>

text \<open>
  \<^verbatim>\<open>json.load\<close> yields strings, integers, floats, booleans, \<^verbatim>\<open>None\<close>, lists and
  dictionaries. A dictionary is kept as the list of its items in insertion order, which is
  the order \<^verbatim>\<open>d.items()\<close> iterates in; a Python dictionary never holds a key twice, which
  \<open>wf_dict\<close> below records. Strings are lists of 8-bit characters, read as code points
  below 256. Floats are of a type \<open>'f\<close> left open, and their \<^verbatim>\<open>str\<close> is a parameter
  \<open>fstr\<close> of everything that renders a value.
\<close>

datatype 'f jvalue =
    JStr string
  | JInt int
  | JFloat 'f
  | JBool bool
  | JNull
  | JList "'f jvalue list"
  | JDict "(string \<times> 'f jvalue) list"

type_synonym 'f pydict = "(string \<times> 'f jvalue) list"

fun is_dict :: "'f jvalue \<Rightarrow> bool" where
  "is_dict (JDict d) = True"
| "is_dict v = False"

primrec wf_value :: "'f jvalue \<Rightarrow> bool" where
  "wf_value (JStr s) = True"
| "wf_value (JInt i) = True"
| "wf_value (JFloat x) = True"
| "wf_value (JBool b) = True"
| "wf_value JNull = True"
| "wf_value (JList xs) = list_all id (map wf_value xs)"
| "wf_value (JDict d) =
     (distinct (map fst d) \<and> list_all snd (map (map_prod id wf_value) d))"

definition wf_dict :: "'f pydict \<Rightarrow> bool" where
  "wf_dict d = wf_value (JDict d)"

subsection \<open>\<^verbatim>\<open>str\<close> and \<^verbatim>\<open>repr\<close> of the values\<close>

definition digit_char :: "nat \<Rightarrow> char" where
  "digit_char n = char_of (48 + n)"

function digits :: "nat \<Rightarrow> string" where
  "digits n = (if n < 10 then [digit_char n] else digits (n div 10) @ [digit_char (n mod 10)])"
  by pat_completeness auto
termination
  by (relation "measure id") auto

definition int_str :: "int \<Rightarrow> string" where
  "int_str i = (if i < 0 then CHR ''-'' # digits (nat (- i)) else digits (nat i))"

definition hex_char :: "nat \<Rightarrow> char" where
  "hex_char n = (if n < 10 then char_of (48 + n) else char_of (87 + n))"

text \<open>
  \<^verbatim>\<open>repr\<close> of a string: the quote is \<^verbatim>\<open>"\<close> when the string holds a \<^verbatim>\<open>'\<close> and no
  \<^verbatim>\<open>"\<close>, and \<^verbatim>\<open>'\<close> otherwise; the quote and the backslash are escaped, tab, newline and
  carriage return have their letters, and the other characters that are not printable
  (below 32, 127 to 160, and 173) are written \<^verbatim>\<open>\xNN\<close>.
\<close>

definition repr_char :: "char \<Rightarrow> char \<Rightarrow> string" where
  "repr_char q c =
     (let n = (of_char c :: nat) in
      if c = q \<or> c = CHR 0x5C then [CHR 0x5C, c]
      else if n = 9 then [CHR 0x5C, CHR ''t'']
      else if n = 10 then [CHR 0x5C, CHR ''n'']
      else if n = 13 then [CHR 0x5C, CHR ''r'']
      else if n < 32 \<or> (127 \<le> n \<and> n \<le> 160) \<or> n = 173
        then [CHR 0x5C, CHR ''x'', hex_char (n div 16), hex_char (n mod 16)]
      else [c])"

definition str_repr :: "string \<Rightarrow> string" where
  "str_repr s =
     (let q = (if CHR 0x27 \<in> set s \<and> CHR 0x22 \<notin> set s then CHR 0x22 else CHR 0x27)
      in q # concat (map (repr_char q) s) @ [q])"

fun join_with :: "string \<Rightarrow> string list \<Rightarrow> string" where
  "join_with sep [] = []"
| "join_with sep [x] = x"
| "join_with sep (x # y # ys) = x @ sep @ join_with sep (y # ys)"

primrec py_repr :: "('f \<Rightarrow> string) \<Rightarrow> 'f jvalue \<Rightarrow> string" where
  "py_repr fstr (JStr s) = str_repr s"
| "py_repr fstr (JInt i) = int_str i"
| "py_repr fstr (JFloat x) = fstr x"
| "py_repr fstr (JBool b) = (if b then ''True'' else ''False'')"
| "py_repr fstr JNull = ''None''"
| "py_repr fstr (JList xs) = ''['' @ join_with '', '' (map (py_repr fstr) xs) @ '']''"
| "py_repr fstr (JDict d) =
     ''{'' @ join_with '', ''
        (map (\<lambda>kv. str_repr (fst kv) @ '': '' @ snd kv)
           (map (map_prod id (py_repr fstr)) d)) @ ''}''"

definition py_str :: "('f \<Rightarrow> string) \<Rightarrow> 'f jvalue \<Rightarrow> string" where
  "py_str fstr v = (case v of JStr s \<Rightarrow> s | _ \<Rightarrow> py_repr fstr v)"

section \<open>Flattening\<close>

text \<open>
  The result of \<open>flatten\<close> is a Python dictionary of strings, again the list of its items in
  insertion order. \<open>dict_set\<close> is \<^verbatim>\<open>result[k] = v\<close>: a key that is present keeps its
  place and takes the new value, a new key goes to the end. \<open>dict_update\<close> is
  \<^verbatim>\<open>result.update(other)\<close>, which stores the items of \<open>other\<close> one after another.
\<close>

type_synonym flatmap = "(string \<times> string) list"

fun dict_set :: "flatmap \<Rightarrow> string \<Rightarrow> string \<Rightarrow> flatmap" where
  "dict_set [] k v = [(k, v)]"
| "dict_set ((k', v') # r) k v = (if k' = k then (k, v) # r else (k', v') # dict_set r k v)"

definition dict_update :: "flatmap \<Rightarrow> flatmap \<Rightarrow> flatmap" where
  "dict_update result other = fold (\<lambda>kv r. dict_set r (fst kv) (snd kv)) other result"

text \<open>Line 35: \<^verbatim>\<open>full_key = f"{prefix}.{key}" if prefix else key\<close>; the argument
  \<^verbatim>\<open>prefix\<close> of the source is \<open>pre\<close> here.\<close>

definition full_key :: "string \<Rightarrow> string \<Rightarrow> string" where
  "full_key pre key = (if pre \<noteq> [] then pre @ ''.'' @ key else key)"

text \<open>
  \<open>flatten_loop fstr d pre result\<close> is the \<^verbatim>\<open>for\<close> loop of \<^verbatim>\<open>flatten\<close> over the items
  \<open>d\<close> that are still to come, with the dictionary \<open>result\<close> built so far.
\<close>

function flatten_loop :: "('f \<Rightarrow> string) \<Rightarrow> 'f pydict \<Rightarrow> string \<Rightarrow> flatmap \<Rightarrow> flatmap" where
  "flatten_loop fstr [] pre result = result"
| "flatten_loop fstr ((key, val) # rest) pre result =
     (case val of
        JDict d' \<Rightarrow>
          flatten_loop fstr rest pre
            (dict_update result (flatten_loop fstr d' (full_key pre key) []))
      | _ \<Rightarrow>
          flatten_loop fstr rest pre (dict_set result (full_key pre key) (py_str fstr val)))"
  by pat_completeness auto
termination
  by (relation "measure (\<lambda>(fstr, d, pre, result). size_list (size_prod (\<lambda>k. 0) size) d)")
     auto

definition flatten :: "('f \<Rightarrow> string) \<Rightarrow> 'f pydict \<Rightarrow> string \<Rightarrow> flatmap" where
  "flatten fstr d pre = flatten_loop fstr d pre []"

subsection \<open>Root-to-leaf paths\<close>

text \<open>
  The specification speaks of the root-to-leaf paths of a document and of their dotted
  form. \<open>leaves d\<close> lists the paths of \<open>d\<close>, each with the leaf it ends at, in the order of
  the document; a leaf is any value that is not a dictionary, and an empty dictionary has
  no path through it. \<open>dotted p\<close> joins the keys of a path with dots.
\<close>

function leaves :: "'f pydict \<Rightarrow> (string list \<times> 'f jvalue) list" where
  "leaves [] = []"
| "leaves ((key, val) # rest) =
     (case val of
        JDict d' \<Rightarrow> map (\<lambda>pl. (key # fst pl, snd pl)) (leaves d')
      | _ \<Rightarrow> [([key], val)])
     @ leaves rest"
  by pat_completeness auto
termination
  by (relation "measure (size_list (size_prod (\<lambda>k. 0) size))") auto

definition dotted :: "string list \<Rightarrow> string" where
  "dotted p = join_with ''.'' p"

text \<open>
  \<open>path_key pre p\<close> is the key that the source composes along the path \<open>p\<close> below the
  prefix \<open>pre\<close>: one application of line 35 for each key of the path.
\<close>

definition path_key :: "string \<Rightarrow> string list \<Rightarrow> string" where
  "path_key pre p = foldl full_key pre p"

definition entries :: "('f \<Rightarrow> string) \<Rightarrow> string \<Rightarrow> 'f pydict \<Rightarrow> flatmap" where
  "entries fstr pre d = map (\<lambda>pl. (path_key pre (fst pl), py_str fstr (snd pl))) (leaves d)"

definition dot_free :: "string \<Rightarrow> bool" where
  "dot_free k = (CHR ''.'' \<notin> set k)"

definition dot_free_paths :: "'f pydict \<Rightarrow> bool" where
  "dot_free_paths d = list_all (\<lambda>pl. list_all dot_free (fst pl)) (leaves d)"

definition top_keys_nonempty :: "'f pydict \<Rightarrow> bool" where
  "top_keys_nonempty d = list_all (\<lambda>kv. fst kv \<noteq> []) d"

subsection \<open>Example documents\<close>

text \<open>
  \<^verbatim>\<open>{"brand": {"primary": "#fff", "sizes": [1, "b"]}, "n": 3, "e": {}}\<close> and
  \<^verbatim>\<open>{"a.b": 1, "a": {"b": 2}}\<close>, with floats rendered by \<open>id\<close> on strings (neither
  document holds one).
\<close>

definition doc_brand :: "string pydict" where
  "doc_brand =
     [(''brand'', JDict [(''primary'', JStr ''#fff''), (''sizes'', JList [JInt 1, JStr ''b''])]),
      (''n'', JInt 3), (''e'', JDict [])]"

definition doc_collide :: "string pydict" where
  "doc_collide = [(''a.b'', JInt 1), (''a'', JDict [(''b'', JInt 2)])]"

section \<open>Substitution and the scan for the placeholders left\<close>

text \<open>
  \<open>replace s old new\<close> is \<^verbatim>\<open>s.replace(old, new)\<close>: the occurrences of \<open>old\<close> are taken from
  the left and do not overlap. With an empty \<open>old\<close> Python puts \<open>new\<close> before every
  character and at the end; the tokens of \<open>substitute\<close> are never empty.
\<close>

function replace :: "string \<Rightarrow> string \<Rightarrow> string \<Rightarrow> string" where
  "replace [] old new = (if old = [] then new else [])"
| "replace (c # cs) old new =
     (if old = [] then new @ c # replace cs old new
      else if prefix old (c # cs) then new @ replace (drop (length old) (c # cs)) old new
      else c # replace cs old new)"
  by pat_completeness auto
termination
  by (relation "measure (\<lambda>(s, old, new). length s)") auto

definition token :: "string \<Rightarrow> string" where
  "token key = ''{{'' @ key @ ''}}''"

text \<open>
  Lines 72 and 73: \<^verbatim>\<open>for key, value in flat.items(): html = html.replace("{{" + key + "}}", value)\<close>.
  The specification calls this loop \<open>substitute\<close>.
\<close>

definition substitute :: "string \<Rightarrow> flatmap \<Rightarrow> string" where
  "substitute html flat = fold (\<lambda>kv h. replace h (token (fst kv)) (snd kv)) flat html"

text \<open>
  Line 76: \<^verbatim>\<open>re.findall(r"\{\{[^}]+\}\}", html)\<close>. \<open>match_here s\<close> is the match of the
  pattern at the start of \<open>s\<close>: two opening braces, then the longest run of characters other
  than \<^verbatim>\<open>}\<close>, which must not be empty and must be followed by two closing braces. A
  shorter run cannot match, as the character after it is not a closing brace. \<open>findall\<close>
  looks for a match at each position from the left and goes on after the end of a match.
\<close>

definition match_here :: "string \<Rightarrow> string option" where
  "match_here s =
     (case s of
        c1 # c2 # r \<Rightarrow>
          (let key = takeWhile (\<lambda>c. c \<noteq> CHR ''}'') r;
               rest = dropWhile (\<lambda>c. c \<noteq> CHR ''}'') r
           in if c1 = CHR ''{'' \<and> c2 = CHR ''{'' \<and> key \<noteq> [] \<and> prefix ''}}'' rest
              then Some (token key) else None)
      | _ \<Rightarrow> None)"

function findall :: "string \<Rightarrow> string list" where
  "findall [] = []"
| "findall (c # cs) =
     (case match_here (c # cs) of
        Some m \<Rightarrow> m # findall (drop (length m) (c # cs))
      | None \<Rightarrow> findall cs)"
  by pat_completeness auto
termination
proof (relation "measure length")
  fix c cs m
  assume "match_here (c # cs) = Some m"
  then have "m \<noteq> []"
    by (auto simp: match_here_def token_def Let_def split: list.splits if_splits)
  then show "(drop (length m) (c # cs), c # cs) \<in> measure length"
    by (cases m) simp_all
qed simp_all

subsection \<open>Templates in which two opening braces always open a placeholder\<close>

text \<open>
  A template can be given as a list of segments, text and placeholders in turn; \<open>render\<close>
  is the text of the template. \<open>fill m\<close> puts the value of \<open>m\<close> in the place of a
  placeholder whose key \<open>m\<close> holds and leaves every other segment as it is: mapped over the
  segments it is the substitution that the specification describes, all placeholders at
  once and each value verbatim.

  The text between placeholders may hold braces, as the style sheets and scripts of a page
  do. \<open>ok_lit s\<close> asks only that no two opening braces stand side by side in \<open>s\<close> and that
  \<open>s\<close> does not end in an opening brace, so that no text reads as the opening of a
  placeholder, alone or together with what follows it.
\<close>

datatype seg = Lit string | Tok string

fun render_seg :: "seg \<Rightarrow> string" where
  "render_seg (Lit s) = s"
| "render_seg (Tok k) = token k"

definition render :: "seg list \<Rightarrow> string" where
  "render segs = concat (map render_seg segs)"

fun fill :: "(string \<rightharpoonup> string) \<Rightarrow> seg \<Rightarrow> seg" where
  "fill m (Lit s) = Lit s"
| "fill m (Tok k) = (case m k of Some v \<Rightarrow> Lit v | None \<Rightarrow> Tok k)"

text \<open>\<open>fill_key k v\<close> does so for the one key \<open>k\<close> with the value \<open>v\<close>.\<close>

fun fill_key :: "string \<Rightarrow> string \<Rightarrow> seg \<Rightarrow> seg" where
  "fill_key k v (Lit s) = Lit s"
| "fill_key k v (Tok k') = (if k' = k then Lit v else Tok k')"

definition no_open :: "string \<Rightarrow> bool" where
  "no_open s = (CHR ''{'' \<notin> set s)"

definition brace_free :: "string \<Rightarrow> bool" where
  "brace_free k = (CHR ''{'' \<notin> set k \<and> CHR ''}'' \<notin> set k)"

fun ok_lit :: "string \<Rightarrow> bool" where
  "ok_lit [] = True"
| "ok_lit [c] = (c \<noteq> CHR ''{'')"
| "ok_lit (c # d # s) = (\<not> (c = CHR ''{'' \<and> d = CHR ''{'') \<and> ok_lit (d # s))"

fun plain_seg :: "seg \<Rightarrow> bool" where
  "plain_seg (Lit s) = ok_lit s"
| "plain_seg (Tok k) = brace_free k"

definition plain_template :: "seg list \<Rightarrow> bool" where
  "plain_template segs = list_all plain_seg segs"

definition plain_mapping :: "flatmap \<Rightarrow> bool" where
  "plain_mapping flat = list_all (\<lambda>kv. brace_free (fst kv) \<and> ok_lit (snd kv)) flat"

fun unresolved :: "seg \<Rightarrow> bool" where
  "unresolved (Lit s) = False"
| "unresolved (Tok k) = (k \<noteq> [])"

subsection \<open>Example templates and mappings\<close>

text \<open>
  The template \<^verbatim>\<open><style>p{color:{{c}}}</style><p>{{a.b}}</p> {{x}} {{y}}\<close> in
  segments, with the mapping \<^verbatim>\<open>{"a.b": "hello", "x": "1", "c": "#f{0}"}\<close>; the mapping
  \<^verbatim>\<open>{"a": "{{b}}", "b": "X"}\<close>, in which a value holds the placeholder of another key;
  and the mapping \<^verbatim>\<open>{"a": "y", "xy": "Z"}\<close>, for the template \<^verbatim>\<open>{{x{{a}}}}\<close> in which
  a placeholder stands inside two opening braces.
\<close>

definition tpl_page :: "seg list" where
  "tpl_page =
     [Lit ''<style>p{color:'', Tok ''c'', Lit ''}</style><p>'', Tok ''a.b'', Lit ''</p> '',
      Tok ''x'', Lit '' '', Tok ''y'']"

definition flat_page :: flatmap where
  "flat_page = [(''a.b'', ''hello''), (''x'', ''1''), (''c'', ''#f{0}'')]"

definition flat_chain :: flatmap where
  "flat_chain = [(''a'', ''{{b}}''), (''b'', ''X'')]"

definition flat_nest :: flatmap where
  "flat_nest = [(''a'', ''y''), (''xy'', ''Z'')]"

section \<open>The run\<close>

text \<open>
  The file system is a list of regular files, each a path with its text, and a list of
  directories. Paths are compared as they are written (no \<^verbatim>\<open>..\<close>, no links). What
  \<^verbatim>\<open>print\<close> writes is kept as a list of messages, one for each call, with the values
  that the source formats into the text. \<^verbatim>\<open>sys.exit(1)\<close> after a missing configuration
  or template ends the run with \<open>ConfigNotFound\<close> or \<open>TemplateNotFound\<close>; an
  exception that the source does not catch ends it with \<open>Uncaught\<close>.
\<close>

datatype failure = ConfigNotFound | TemplateNotFound | Uncaught

datatype message =
    ConfigMissing string
  | ConfigHint
  | TemplateMissing string
  | Unreplaced nat
  | Placeholder string
  | AudioCopied nat string
  | AudioMissing string
  | AudioHint
  | Generated string
  | LocalPreview string
  | PagesPreview string

record world =
  files :: "(string \<times> string) list"
  dirs :: "string list"
  printed :: "message list"

definition emit :: "message list \<Rightarrow> world \<Rightarrow> world" where
  "emit msgs w = w\<lparr>printed := printed w @ msgs\<rparr>"

definition path_exists :: "world \<Rightarrow> string \<Rightarrow> bool" where
  "path_exists w p = (map_of (files w) p \<noteq> None \<or> p \<in> set (dirs w))"

text \<open>\<^verbatim>\<open>open(p).read()\<close>: the text of a regular file; anything else raises.\<close>

definition read_file :: "world \<Rightarrow> string \<Rightarrow> string option" where
  "read_file w p = map_of (files w) p"

text \<open>
  \<^verbatim>\<open>os.makedirs(p, exist_ok=True)\<close> makes \<open>p\<close> and the directories above it, and raises
  when one of them is a regular file.
\<close>

definition ancestors :: "string \<Rightarrow> string list" where
  "ancestors p = map (\<lambda>i. take i p) (filter (\<lambda>i. p ! i = CHR ''/'') [1..<length p]) @ [p]"

definition makedirs :: "world \<Rightarrow> string \<Rightarrow> world option" where
  "makedirs w p =
     (if list_ex (\<lambda>a. map_of (files w) a \<noteq> None) (ancestors p) then None
      else Some (w\<lparr>dirs := dirs w @ filter (\<lambda>a. a \<notin> set (dirs w)) (remdups (ancestors p))\<rparr>))"

text \<open>\<^verbatim>\<open>open(p, "w").write(txt)\<close>: raises when \<open>p\<close> is a directory.\<close>

definition write_file :: "world \<Rightarrow> string \<Rightarrow> string \<Rightarrow> world option" where
  "write_file w p txt =
     (if p \<in> set (dirs w) then None else Some (w\<lparr>files := dict_set (files w) p txt\<rparr>))"

definition inside :: "string \<Rightarrow> string \<Rightarrow> bool" where
  "inside p q = prefix (p @ ''/'') q"

text \<open>\<^verbatim>\<open>shutil.rmtree(p)\<close> raises on a regular file, and removes \<open>p\<close> with all below it.\<close>

definition rmtree :: "world \<Rightarrow> string \<Rightarrow> world option" where
  "rmtree w p =
     (if map_of (files w) p \<noteq> None then None
      else Some (w\<lparr>files := filter (\<lambda>f. \<not> inside p (fst f)) (files w),
                   dirs := filter (\<lambda>q. q \<noteq> p \<and> \<not> inside p q) (dirs w)\<rparr>))"

text \<open>
  \<^verbatim>\<open>shutil.copytree(src, dst)\<close> raises when \<open>src\<close> is a regular file or \<open>dst\<close> exists,
  and otherwise makes \<open>dst\<close> and copies all that is below \<open>src\<close> to the same place below
  \<open>dst\<close>.
\<close>

definition rebase :: "string \<Rightarrow> string \<Rightarrow> string \<Rightarrow> string" where
  "rebase src dst q = dst @ drop (length src) q"

definition copytree :: "world \<Rightarrow> string \<Rightarrow> string \<Rightarrow> world option" where
  "copytree w src dst =
     (if map_of (files w) src \<noteq> None \<or> path_exists w dst then None
      else Some (w\<lparr>files := fold (\<lambda>f fs. dict_set fs (rebase src dst (fst f)) (snd f))
                              (filter (\<lambda>f. inside src (fst f)) (files w)) (files w),
                   dirs := dirs w @ dst # map (rebase src dst) (filter (inside src) (dirs w))\<rparr>))"

text \<open>\<^verbatim>\<open>os.listdir(p)\<close>: the names of what lies directly in \<open>p\<close>.\<close>

definition listdir :: "world \<Rightarrow> string \<Rightarrow> string list" where
  "listdir w p =
     filter (\<lambda>n. CHR ''/'' \<notin> set n)
       (map (drop (length p + 1)) (filter (inside p) (remdups (map fst (files w) @ dirs w))))"

text \<open>
  Lines 88 to 96. The result is \<open>Inr\<close> with the world after the copy, or \<open>Inl\<close> with the
  world as it is when \<^verbatim>\<open>rmtree\<close> or \<^verbatim>\<open>copytree\<close> raises: before anything is removed
  in the first case, with the old copy removed in the second.
\<close>

definition copy_audio :: "world \<Rightarrow> string \<Rightarrow> string \<Rightarrow> world + world" where
  "copy_audio w audio_src audio_dst =
     (if path_exists w audio_src then
        (case (if path_exists w audio_dst then rmtree w audio_dst else Some w) of
           None \<Rightarrow> Inl w
         | Some w1 \<Rightarrow>
             (case copytree w1 audio_src audio_dst of
                None \<Rightarrow> Inl w1
              | Some w2 \<Rightarrow>
                  Inr (emit [AudioCopied
                               (length (filter (suffix ''.mp3'') (listdir w2 audio_dst)))
                               audio_dst] w2)))
      else Inr (emit [AudioMissing audio_src, AudioHint] w))"

text \<open>
  Lines 62 to 65: the configuration is read and parsed, and \<^verbatim>\<open>flatten\<close> asks for its
  \<^verbatim>\<open>items\<close>, so anything but a dictionary raises. The parser \<^verbatim>\<open>json.load\<close> is a
  parameter, \<open>None\<close> where it raises.
\<close>

definition load_config :: "(string \<Rightarrow> 'f jvalue option) \<Rightarrow> world \<Rightarrow> string \<Rightarrow> 'f pydict option" where
  "load_config json_load w p =
     (case read_file w p of
        None \<Rightarrow> None
      | Some txt \<Rightarrow> (case json_load txt of Some (JDict d) \<Rightarrow> Some d | _ \<Rightarrow> None))"

text \<open>Lines 76 to 80: the warning, one line for each distinct placeholder, sorted.\<close>

definition warn :: "string \<Rightarrow> world \<Rightarrow> world" where
  "warn html w =
     (let remaining = findall html
      in if remaining \<noteq> []
         then emit (Unreplaced (card (set remaining))
                    # map Placeholder (sorted_list_of_set (set remaining))) w
         else w)"

definition config_path :: "string \<Rightarrow> string" where
  "config_path slug = ''configs/'' @ slug @ ''.json''"

definition template_path :: string where
  "template_path = ''template/TEMPLATE.html''"

definition out_dir :: "string \<Rightarrow> string" where
  "out_dir slug = ''clients/'' @ slug"

definition out_path :: "string \<Rightarrow> string" where
  "out_path slug = out_dir slug @ ''/index.html''"

definition audio_src :: "string \<Rightarrow> string" where
  "audio_src slug = ''configs/'' @ slug @ ''/audio''"

definition audio_dst :: "string \<Rightarrow> string" where
  "audio_dst slug = out_dir slug @ ''/audio''"

text \<open>Lines 82 to 103: the page is written, the audio copied, the result announced.\<close>

definition finish :: "string \<Rightarrow> string \<Rightarrow> world \<Rightarrow> (failure + unit) \<times> world" where
  "finish slug html w =
     (case makedirs w (out_dir slug) of
        None \<Rightarrow> (Inl Uncaught, w)
      | Some w1 \<Rightarrow>
          (case write_file w1 (out_path slug) html of
             None \<Rightarrow> (Inl Uncaught, w1)
           | Some w2 \<Rightarrow>
               (case copy_audio w2 (audio_src slug) (audio_dst slug) of
                  Inl w3 \<Rightarrow> (Inl Uncaught, w3)
                | Inr w3 \<Rightarrow>
                    (Inr (), emit [Generated (out_path slug), LocalPreview slug,
                                   PagesPreview slug] w3))))"

definition generate ::
  "(string \<Rightarrow> 'f jvalue option) \<Rightarrow> ('f \<Rightarrow> string) \<Rightarrow> string \<Rightarrow> world \<Rightarrow> (failure + unit) \<times> world" where
  "generate json_load fstr slug w =
     (if \<not> path_exists w (config_path slug)
        then (Inl ConfigNotFound, emit [ConfigMissing (config_path slug), ConfigHint] w)
      else if \<not> path_exists w template_path
        then (Inl TemplateNotFound, emit [TemplateMissing template_path] w)
      else
        (case load_config json_load w (config_path slug) of
           None \<Rightarrow> (Inl Uncaught, w)
         | Some config \<Rightarrow>
             (let flat = flatten fstr config []
              in case read_file w template_path of
                   None \<Rightarrow> (Inl Uncaught, w)
                 | Some html0 \<Rightarrow>
                     (let html = substitute html0 flat
                      in finish slug html (warn html w)))))"

text \<open>
  \<open>page_writable w slug\<close>: nothing in the file system stops lines 83 to 85, that is, no
  directory on the way to the output directory is a regular file, and the output path is
  not a directory.
\<close>

definition page_writable :: "world \<Rightarrow> string \<Rightarrow> bool" where
  "page_writable w slug =
     (\<not> list_ex (\<lambda>a. map_of (files w) a \<noteq> None) (ancestors (out_dir slug))
      \<and> out_path slug \<notin> set (dirs w))"

subsection \<open>Example worlds\<close>

text \<open>
  A parser that knows one configuration text, for
  \<^verbatim>\<open>{"x": "1", "b": {"c": 2}}\<close>; a world with this configuration for the client
  \<^verbatim>\<open>acme\<close>, a template and audio files; the same world after an earlier run; and a world
  with the configuration and no template.
\<close>

definition load_acme :: "string \<Rightarrow> string jvalue option" where
  "load_acme txt =
     (if txt = ''CFG'' then Some (JDict [(''x'', JStr ''1''), (''b'', JDict [(''c'', JInt 2)])])
      else None)"

definition world_acme :: world where
  "world_acme =
     \<lparr>files = [(''configs/acme.json'', ''CFG''),
               (''template/TEMPLATE.html'', ''<h1>{{x}}</h1>{{b.c}} {{z}} {{y}} {{z}}''),
               (''configs/acme/audio/a.mp3'', ''AAA''),
               (''configs/acme/audio/c.txt'', ''C'')],
      dirs = [''configs'', ''template'', ''configs/acme'', ''configs/acme/audio''],
      printed = []\<rparr>"

definition world_again :: world where
  "world_again = snd (generate load_acme id ''acme'' world_acme)"

definition world_no_template :: world where
  "world_no_template =
     \<lparr>files = [(''configs/acme.json'', ''CFG'')], dirs = [''configs''], printed = []\<rparr>"

text \<open>Two worlds with the same files and directories, whatever was printed.\<close>

definition same_fs :: "world \<Rightarrow> world \<Rightarrow> bool" where
  "same_fs w w' = (files w = files w' \<and> dirs w = dirs w')"

section \<open>Properties of the dictionary operations and of flatten\<close>

lemma map_of_dict_set: "map_of (dict_set r k v) = (map_of r)(k \<mapsto> v)"
  by (induction r k v rule: dict_set.induct) auto

lemma keys_dict_set: "fst ` set (dict_set r k v) = insert k (fst ` set r)"
  by (induction r k v rule: dict_set.induct) auto

lemma dict_set_new: "k \<notin> fst ` set r \<Longrightarrow> dict_set r k v = r @ [(k, v)]"
  by (induction r k v rule: dict_set.induct) auto

lemma map_of_dict_update: "map_of (dict_update r xs) = map_of r ++ map_of (rev xs)"
  unfolding dict_update_def
proof (induction xs arbitrary: r)
  case Nil
  then show ?case by simp
next
  case (Cons x xs)
  show ?case
    by (cases x) (simp add: Cons.IH map_of_dict_set map_add_assoc [symmetric] map_add_upd_left fun_upd_def [symmetric])
qed

lemma dict_update_new:
  "distinct (map fst r @ map fst xs) \<Longrightarrow> dict_update r xs = r @ xs"
  unfolding dict_update_def
proof (induction xs arbitrary: r)
  case Nil
  then show ?case by simp
next
  case (Cons x xs)
  have "dict_set r (fst x) (snd x) = r @ [x]"
    using Cons.prems by (simp add: dict_set_new)
  moreover have "distinct (map fst (r @ [x]) @ map fst xs)"
    using Cons.prems by auto
  ultimately show ?case
    using Cons.IH [of "r @ [x]"] by simp
qed

lemma dict_update_Nil [simp]: "dict_update r [] = r"
  by (simp add: dict_update_def)

lemma path_key_Cons: "path_key pre (k # p) = path_key (full_key pre k) p"
  by (simp add: path_key_def)

lemma entries_Nil [simp]: "entries fstr pre [] = []"
  by (simp add: entries_def)

lemma entries_Cons:
  "entries fstr pre ((k, v) # rest) =
     (case v of JDict d' \<Rightarrow> entries fstr (full_key pre k) d'
      | _ \<Rightarrow> [(full_key pre k, py_str fstr v)]) @ entries fstr pre rest"
  by (cases v) (simp_all add: entries_def path_key_def comp_def)

lemma distinct_dict_set: "distinct (map fst r) \<Longrightarrow> distinct (map fst (dict_set r k v))"
  by (induction r k v rule: dict_set.induct) (auto simp: keys_dict_set)

lemma distinct_dict_update: "distinct (map fst r) \<Longrightarrow> distinct (map fst (dict_update r xs))"
  unfolding dict_update_def
  by (induction xs arbitrary: r) (simp_all add: distinct_dict_set)

lemma distinct_flatten_loop:
  "distinct (map fst result) \<Longrightarrow> distinct (map fst (flatten_loop fstr d pre result))"
proof (induction fstr d pre result rule: flatten_loop.induct)
  case (1 fstr pre result)
  then show ?case by simp
next
  case (2 fstr key val rest pre result)
  then show ?case
    by (cases val) (simp_all add: distinct_dict_set distinct_dict_update)
qed

lemma map_of_rev_distinct: "distinct (map fst xs) \<Longrightarrow> map_of (rev xs) = map_of xs"
proof (induction xs)
  case Nil
  then show ?case by simp
next
  case (Cons x xs)
  obtain k v where x: "x = (k, v)" by (cases x)
  have "map_of xs k = None"
    using Cons.prems x by (simp add: map_of_eq_None_iff)
  then have "[k \<mapsto> v] ++ map_of xs = (map_of xs)(k \<mapsto> v)"
    by (auto simp: map_add_def split: option.splits)
  then show ?case
    using Cons x by simp
qed

lemma flatten_loop_leaf:
  "\<not> is_dict val \<Longrightarrow>
   flatten_loop fstr ((key, val) # rest) pre result =
   flatten_loop fstr rest pre (dict_set result (full_key pre key) (py_str fstr val))"
  by (cases val) simp_all

lemma entries_leaf:
  "\<not> is_dict val \<Longrightarrow>
   entries fstr pre ((key, val) # rest) = (full_key pre key, py_str fstr val) # entries fstr pre rest"
  by (cases val) (simp_all add: entries_Cons)

lemma map_of_flatten_loop:
  "map_of (flatten_loop fstr d pre result) = map_of result ++ map_of (rev (entries fstr pre d))"
proof (induction fstr d pre result rule: flatten_loop.induct)
  case (1 fstr pre result)
  then show ?case by simp
next
  case (2 fstr key val rest pre result)
  show ?case
  proof (cases "is_dict val")
    case True
    then obtain d' where JDict: "val = JDict d'" by (cases val) simp_all
    have "map_of (rev (flatten_loop fstr d' (full_key pre key) []))
            = map_of (rev (entries fstr (full_key pre key) d'))"
      using 2(7) [OF JDict] by (simp add: map_of_rev_distinct distinct_flatten_loop)
    then show ?thesis
      using 2(8) [OF JDict] JDict by (simp add: entries_Cons map_of_dict_update)
  next
    case False
    let ?r = "dict_set result (full_key pre key) (py_str fstr val)"
    have "map_of (flatten_loop fstr rest pre ?r) = map_of ?r ++ map_of (rev (entries fstr pre rest))"
      using False 2(1-6) by (cases val) simp_all
    then show ?thesis
      by (simp add: flatten_loop_leaf [OF False] entries_leaf [OF False] map_of_dict_set
          map_add_upd_left del: flatten_loop.simps)
  qed
qed

lemma flatten_loop_exact:
  "distinct (map fst result @ map fst (entries fstr pre d)) \<Longrightarrow>
   flatten_loop fstr d pre result = result @ entries fstr pre d"
proof (induction fstr d pre result rule: flatten_loop.induct)
  case (1 fstr pre result)
  then show ?case by simp
next
  case (2 fstr key val rest pre result)
  note prem = \<open>distinct (map fst result @ map fst (entries fstr pre ((key, val) # rest)))\<close>
  show ?case
  proof (cases "is_dict val")
    case True
    then obtain d' where JDict: "val = JDict d'" by (cases val) simp_all
    have a: "flatten_loop fstr d' (full_key pre key) [] = entries fstr (full_key pre key) d'"
      using 2(7) [OF JDict] prem JDict by (simp add: entries_Cons)
    have b: "dict_update result (entries fstr (full_key pre key) d') = result @ entries fstr (full_key pre key) d'"
      using prem JDict by (intro dict_update_new) (auto simp: entries_Cons)
    show ?thesis
      using 2(8) [OF JDict] prem JDict a b by (simp add: entries_Cons)
  next
    case False
    let ?r = "dict_set result (full_key pre key) (py_str fstr val)"
    have new: "?r = result @ [(full_key pre key, py_str fstr val)]"
      using prem by (intro dict_set_new) (auto simp: entries_leaf [OF False])
    have "distinct (map fst ?r @ map fst (entries fstr pre rest))"
      using prem by (auto simp: new entries_leaf [OF False])
    then have "flatten_loop fstr rest pre ?r = ?r @ entries fstr pre rest"
      using False 2(1-6) by (cases val) simp_all
    then show ?thesis
      by (simp add: flatten_loop_leaf [OF False] entries_leaf [OF False] new
          del: flatten_loop.simps)
  qed
qed

lemma path_key_pre:
  "pre \<noteq> [] \<Longrightarrow> p \<noteq> [] \<Longrightarrow> path_key pre p = pre @ ''.'' @ dotted p"
proof (induction p arbitrary: pre)
  case Nil
  then show ?case by simp
next
  case (Cons k p)
  show ?case
  proof (cases p)
    case Nil
    then show ?thesis using Cons.prems by (simp add: path_key_def full_key_def dotted_def)
  next
    case (Cons k' p')
    have "path_key (full_key pre k) p = full_key pre k @ ''.'' @ dotted p"
      using Cons.prems Cons by (intro Cons.IH) (simp_all add: full_key_def)
    then show ?thesis
      using Cons.prems Cons by (simp add: path_key_Cons full_key_def dotted_def)
  qed
qed

lemma path_key_top: "k \<noteq> [] \<Longrightarrow> path_key [] (k # p) = dotted (k # p)"
proof (cases p)
  case Nil
  then show ?thesis by (simp add: path_key_def full_key_def dotted_def)
next
  case (Cons k' p')
  assume "k \<noteq> []"
  then show ?thesis
    using path_key_pre [of k p] Cons by (simp add: path_key_Cons full_key_def dotted_def)
qed

lemma leaves_Cons:
  "leaves ((k, v) # rest) =
     (case v of JDict d' \<Rightarrow> map (\<lambda>pl. (k # fst pl, snd pl)) (leaves d') | _ \<Rightarrow> [([k], v)])
     @ leaves rest"
  by simp

lemma leaves_head: "(p, l) \<in> set (leaves d) \<Longrightarrow> \<exists>k q. p = k # q \<and> k \<in> fst ` set d"
proof (induction d rule: leaves.induct)
  case 1
  then show ?case by simp
next
  case (2 key val rest)
  then show ?case
    by (cases val) (auto simp del: leaves.simps simp add: leaves_Cons)
qed

lemma path_key_leaves:
  assumes "top_keys_nonempty d" "(p, l) \<in> set (leaves d)"
  shows "path_key [] p = dotted p"
proof -
  obtain k q where p: "p = k # q" "k \<in> fst ` set d"
    using leaves_head [OF assms(2)] by blast
  then have "k \<noteq> []"
    using assms(1) by (auto simp: top_keys_nonempty_def list_all_iff)
  then show ?thesis
    using p by (simp add: path_key_top)
qed

lemma entries_top:
  assumes "top_keys_nonempty d"
  shows "entries fstr [] d = map (\<lambda>pl. (dotted (fst pl), py_str fstr (snd pl))) (leaves d)"
  using path_key_leaves [OF assms] by (auto simp: entries_def)

lemma takeWhile_dot:
  "dot_free a \<Longrightarrow> takeWhile (\<lambda>c. c \<noteq> CHR ''.'') (a @ CHR ''.'' # x) = a"
  unfolding dot_free_def by (induction a) auto

lemma dot_split:
  assumes "dot_free a" "dot_free b" "a @ CHR ''.'' # x = b @ CHR ''.'' # y"
  shows "a = b \<and> x = y"
proof -
  have "takeWhile (\<lambda>c. c \<noteq> CHR ''.'') (a @ CHR ''.'' # x) = a"
    using assms(1) by (rule takeWhile_dot)
  moreover have "takeWhile (\<lambda>c. c \<noteq> CHR ''.'') (b @ CHR ''.'' # y) = b"
    using assms(2) by (rule takeWhile_dot)
  ultimately have "a = b" using assms(3) by simp
  then show ?thesis using assms(3) by simp
qed

lemma dotted_Cons2: "dotted (k # k' # p) = k @ CHR ''.'' # dotted (k' # p)"
  by (simp add: dotted_def)

lemma dotted_single: "dotted [k] = k"
  by (simp add: dotted_def)

lemma dotted_inj:
  "list_all dot_free p \<Longrightarrow> list_all dot_free q \<Longrightarrow> p \<noteq> [] \<Longrightarrow> q \<noteq> [] \<Longrightarrow>
   dotted p = dotted q \<Longrightarrow> p = q"
proof (induction p arbitrary: q)
  case Nil
  then show ?case by simp
next
  case (Cons k p)
  then obtain k' q' where q: "q = k' # q'" by (cases q) auto
  show ?case
  proof (cases p)
    case Nil
    show ?thesis
    proof (cases q')
      case Nil
      then show ?thesis using Cons.prems q \<open>p = []\<close> by (simp add: dotted_single)
    next
      case (Cons k'' q'')
      have "CHR ''.'' \<in> set (dotted q)"
        unfolding q Cons dotted_Cons2 by simp
      then show ?thesis
        using Cons.prems \<open>p = []\<close> by (simp add: dotted_single dot_free_def)
    qed
  next
    case pc: (Cons k1 p1)
    show ?thesis
    proof (cases q')
      case Nil
      have "CHR ''.'' \<in> set (dotted (k # p))"
        unfolding pc dotted_Cons2 by simp
      then show ?thesis
        using Cons.prems q Nil by (simp add: dotted_single dot_free_def)
    next
      case qc: (Cons k'' q'')
      have "k = k' \<and> dotted p = dotted q'"
        using Cons.prems q pc qc by (intro dot_split) (simp_all add: dotted_Cons2)
      then show ?thesis
        using Cons.IH [of q'] Cons.prems q pc qc by simp
    qed
  qed
qed

lemma wf_dict_Cons:
  "wf_dict ((k, v) # rest) = (k \<notin> fst ` set rest \<and> wf_value v \<and> wf_dict rest)"
  by (auto simp: wf_dict_def)

lemma distinct_leaves: "wf_dict d \<Longrightarrow> distinct (map fst (leaves d))"
proof (induction d rule: leaves.induct)
  case 1
  then show ?case by simp
next
  case (2 key val rest)
  have rest: "distinct (map fst (leaves rest))" and key: "key \<notin> fst ` set rest"
    using 2 by (simp_all add: wf_dict_Cons)
  have disj: "key # q \<notin> fst ` set (leaves rest)" for q
    using key leaves_head [of "key # q" _ rest] by force
  show ?case
  proof (cases "is_dict val")
    case True
    then obtain d' where JDict: "val = JDict d'" by (cases val) simp_all
    have "distinct (map fst (leaves d'))"
      using 2 JDict by (simp add: wf_dict_Cons wf_dict_def)
    then have "distinct (map (\<lambda>pl. key # fst pl) (leaves d'))"
      by (simp add: distinct_map inj_on_def comp_def)
    then show ?thesis
      using rest disj JDict by (auto simp: comp_def)
  next
    case False
    then have "leaves ((key, val) # rest) = ([key], val) # leaves rest"
      by (cases val) simp_all
    then show ?thesis
      using rest disj by simp
  qed
qed

lemma dotted_inj_on_paths:
  assumes "dot_free_paths d"
  shows "inj_on dotted (fst ` set (leaves d))"
proof (rule inj_onI)
  fix p q
  assume p: "p \<in> fst ` set (leaves d)" and q: "q \<in> fst ` set (leaves d)"
    and eq: "dotted p = dotted q"
  have "list_all dot_free p" "list_all dot_free q"
    using p q assms by (auto simp: dot_free_paths_def list_all_iff)
  moreover have "p \<noteq> []" "q \<noteq> []"
    using p q leaves_head by fastforce+
  ultimately show "p = q"
    using eq by (intro dotted_inj)
qed

lemma dotted_paths_distinct:
  assumes "wf_dict d" "dot_free_paths d"
  shows "distinct (map (\<lambda>pl. dotted (fst pl)) (leaves d))"
proof -
  have "distinct (map dotted (map fst (leaves d)))"
    using distinct_leaves [OF assms(1)] dotted_inj_on_paths [OF assms(2)]
    by (subst distinct_map) simp
  then show ?thesis by (simp add: comp_def)
qed

lemma flatten_map_of: "map_of (flatten fstr d pre) = map_of (rev (entries fstr pre d))"
  by (simp add: flatten_def map_of_flatten_loop)

lemma flatten_keys: "fst ` set (flatten fstr d pre) = fst ` set (entries fstr pre d)"
proof -
  have "dom (map_of (flatten fstr d pre)) = dom (map_of (rev (entries fstr pre d)))"
    by (simp only: flatten_map_of)
  then show ?thesis
    by (simp add: dom_map_of_conv_image_fst)
qed

lemma flatten_empty_branch:
  "flatten fstr ((key, JDict []) # rest) pre = flatten fstr rest pre"
  by (simp add: flatten_def)

subsection \<open>The example documents, evaluated\<close>

lemma leaves_doc_brand:
  "leaves doc_brand =
     [([''brand'', ''primary''], JStr ''#fff''),
      ([''brand'', ''sizes''], JList [JInt 1, JStr ''b'']),
      ([''n''], JInt 3)]"
  by code_simp

lemma flatten_doc_brand:
  "flatten id doc_brand [] =
     [(''brand.primary'', ''#fff''),
      (''brand.sizes'', ''[1, '' @ [CHR 0x27] @ ''b'' @ [CHR 0x27] @ '']''),
      (''n'', ''3'')]"
  by code_simp

lemma ok_doc_brand: "top_keys_nonempty doc_brand" "wf_dict doc_brand" "dot_free_paths doc_brand"
  by code_simp+

lemma leaves_doc_collide:
  "leaves doc_collide = [([''a.b''], JInt 1), ([''a'', ''b''], JInt 2)]"
  by code_simp

lemma flatten_doc_collide: "flatten id doc_collide [] = [(''a.b'', ''2'')]"
  by code_simp

lemma flatten_loop_append:
  "flatten_loop fstr (d @ d2) pre result = flatten_loop fstr d2 pre (flatten_loop fstr d pre result)"
proof (induction fstr d pre result rule: flatten_loop.induct)
  case (1 fstr pre result)
  then show ?case by simp
next
  case (2 fstr key val rest pre result)
  then show ?case by (cases val) simp_all
qed

section \<open>Properties of replace, substitute and findall\<close>

lemma token_Cons: "token k = CHR ''{'' # CHR ''{'' # k @ ''}}''"
  by (simp add: token_def)

lemma replace_skip:
  "c \<noteq> CHR ''{'' \<Longrightarrow> replace (c # s) (token k) v = c # replace s (token k) v"
  by (simp add: token_Cons)

lemma replace_skip_text:
  "no_open a \<Longrightarrow> replace (a @ s) (token k) v = a @ replace s (token k) v"
  unfolding no_open_def
proof (induction a)
  case Nil
  then show ?case by simp
next
  case (Cons c a)
  then have "c \<noteq> CHR ''{''" by auto
  then show ?case
    using Cons by (simp add: replace_skip del: replace.simps)
qed

lemma no_open_ok_lit: "no_open a \<Longrightarrow> ok_lit a"
  unfolding no_open_def by (induction a rule: ok_lit.induct) auto

lemma replace_skip2:
  "d \<noteq> CHR ''{'' \<Longrightarrow> replace (c # d # s) (token k) v = c # replace (d # s) (token k) v"
  by (simp add: token_Cons)

lemma replace_skip_lit:
  "ok_lit a \<Longrightarrow> replace (a @ s) (token k) v = a @ replace s (token k) v"
proof (induction a rule: ok_lit.induct)
  case 1
  then show ?case by simp
next
  case (2 c)
  then show ?case by (simp add: replace_skip del: replace.simps)
next
  case (3 c d a)
  show ?case
  proof (cases "c = CHR ''{''")
    case True
    then have "d \<noteq> CHR ''{''" using 3(2) by simp
    then show ?thesis
      using 3 by (simp add: replace_skip2 del: replace.simps)
  next
    case False
    then show ?thesis
      using 3 by (simp add: replace_skip del: replace.simps)
  qed
qed

lemma takeWhile_close:
  "CHR ''}'' \<notin> set a \<Longrightarrow> takeWhile (\<lambda>c. c \<noteq> CHR ''}'') (a @ CHR ''}'' # x) = a"
  by (induction a) auto

lemma dropWhile_close:
  "CHR ''}'' \<notin> set a \<Longrightarrow> dropWhile (\<lambda>c. c \<noteq> CHR ''}'') (a @ CHR ''}'' # x) = CHR ''}'' # x"
  by (induction a) auto

lemma token_prefix_eq:
  assumes "brace_free k" "brace_free k'" "prefix (token k) (token k' @ rest)"
  shows "k = k'"
proof -
  obtain z where z: "token k' @ rest = token k @ z"
    using assms(3) by (auto simp: prefix_def)
  then have "k' @ CHR ''}'' # CHR ''}'' # rest = k @ CHR ''}'' # CHR ''}'' # z"
    by (simp add: token_Cons)
  then have "takeWhile (\<lambda>c. c \<noteq> CHR ''}'') (k' @ CHR ''}'' # CHR ''}'' # rest)
           = takeWhile (\<lambda>c. c \<noteq> CHR ''}'') (k @ CHR ''}'' # CHR ''}'' # z)"
    by simp
  then show ?thesis
    using assms(1,2) by (simp add: takeWhile_close brace_free_def)
qed

lemma replace_token_same:
  "replace (token k @ rest) (token k) v = v @ replace rest (token k) v"
proof -
  have "replace (token k @ rest) (token k) v
          = v @ replace (drop (length (token k)) (token k @ rest)) (token k) v"
    by (simp add: token_Cons)
  then show ?thesis by simp
qed

lemma replace_token_other:
  assumes "brace_free k" "brace_free k'" "k' \<noteq> k"
  shows "replace (token k' @ rest) (token k) v = token k' @ replace rest (token k) v"
proof -
  let ?t = "k' @ ''}}'' @ rest"
  have np: "\<not> prefix (token k) (token k' @ rest)"
    using token_prefix_eq [OF assms(1,2)] assms(3) by blast
  have hd: "?t \<noteq> [] \<and> hd ?t \<noteq> CHR ''{''"
    using assms(2) by (cases k') (auto simp: brace_free_def)
  have np2: "\<not> prefix (token k) (CHR ''{'' # ?t)"
    using hd by (cases ?t) (auto simp: token_Cons)
  have a: "replace (token k' @ rest) (token k) v = CHR ''{'' # replace (CHR ''{'' # ?t) (token k) v"
    using np by (simp add: token_Cons [of k'] token_Cons [of k, THEN arg_cong [where f = "\<lambda>x. x = []"]])
  have b: "replace (CHR ''{'' # ?t) (token k) v = CHR ''{'' # replace ?t (token k) v"
    using np2 by (simp add: token_Cons [of k, THEN arg_cong [where f = "\<lambda>x. x = []"]])
  have c: "replace ?t (token k) v = k' @ replace (''}}'' @ rest) (token k) v"
    using assms(2) by (intro replace_skip_text) (simp add: brace_free_def no_open_def)
  have d: "replace (''}}'' @ rest) (token k) v = ''}}'' @ replace rest (token k) v"
    by (intro replace_skip_text) (simp add: no_open_def)
  show ?thesis
    unfolding a b c d by (simp add: token_Cons)
qed

lemma render_Cons: "render (seg # segs) = render_seg seg @ render segs"
  by (simp add: render_def)

lemma render_Nil: "render [] = []"
  by (simp add: render_def)

lemma token_nonempty: "token k \<noteq> []"
  by (simp add: token_Cons)

lemma replace_render:
  assumes "brace_free k" "plain_template segs"
  shows "replace (render segs) (token k) v = render (map (fill_key k v) segs)"
  using assms(2)
proof (induction segs)
  case Nil
  then show ?case by (simp add: render_Nil token_nonempty)
next
  case (Cons seg segs)
  have IH: "replace (render segs) (token k) v = render (map (fill_key k v) segs)"
    by (rule Cons.IH) (use Cons.prems in \<open>simp add: plain_template_def\<close>)
  show ?case
  proof (cases seg)
    case (Lit s)
    then have "ok_lit s" using Cons.prems by (simp add: plain_template_def)
    then show ?thesis
      using Lit IH by (simp add: render_Cons replace_skip_lit)
  next
    case (Tok k')
    then have k': "brace_free k'" using Cons.prems by (simp add: plain_template_def)
    show ?thesis
    proof (cases "k' = k")
      case True
      then show ?thesis
        using Tok IH by (simp add: render_Cons replace_token_same)
    next
      case False
      then show ?thesis
        using Tok IH by (simp add: render_Cons replace_token_other [OF assms(1) k'])
    qed
  qed
qed

lemma plain_fill_key:
  assumes "plain_template segs" "ok_lit v"
  shows "plain_template (map (fill_key k v) segs)"
  using assms(1) unfolding plain_template_def
proof (induction segs)
  case Nil
  then show ?case by simp
next
  case (Cons seg segs)
  then show ?case
    using assms(2) by (cases seg) auto
qed

lemma substitute_Cons:
  "substitute html ((k, v) # flat) = substitute (replace html (token k) v) flat"
  by (simp add: substitute_def)

lemma fill_step: "fill (map_of flat) (fill_key k v seg) = fill (map_of ((k, v) # flat)) seg"
  by (cases seg) simp_all

lemma substitute_render:
  assumes "plain_template segs" "plain_mapping flat"
  shows "substitute (render segs) flat = render (map (fill (map_of flat)) segs)"
  using assms
proof (induction flat arbitrary: segs)
  case Nil
  have "map (fill Map.empty) segs = segs"
    by (induction segs) (simp, rename_tac seg segs, case_tac seg, simp_all)
  then show ?case by (simp add: substitute_def)
next
  case (Cons kv flat)
  obtain k v where kv: "kv = (k, v)" by (cases kv)
  have k: "brace_free k" and v: "ok_lit v" and flat: "plain_mapping flat"
    using Cons.prems(2) kv by (simp_all add: plain_mapping_def)
  have plain: "plain_template (map (fill_key k v) segs)"
    using Cons.prems(1) v by (rule plain_fill_key)
  have "substitute (render segs) (kv # flat)
          = substitute (render (map (fill_key k v) segs)) flat"
    by (simp add: kv substitute_Cons replace_render [OF k Cons.prems(1)])
  also have "\<dots> = render (map (fill (map_of flat)) (map (fill_key k v) segs))"
    using plain flat by (rule Cons.IH)
  also have "\<dots> = render (map (fill (map_of (kv # flat))) segs)"
    by (simp add: kv fill_step comp_def del: fill.simps)
  finally show ?case .
qed

lemma findall_skip: "c \<noteq> CHR ''{'' \<Longrightarrow> findall (c # s) = findall s"
  by (simp add: match_here_def Let_def split: list.splits)

lemma findall_skip_text: "no_open a \<Longrightarrow> findall (a @ s) = findall s"
  unfolding no_open_def
proof (induction a)
  case Nil
  then show ?case by simp
next
  case (Cons c a)
  then have "c \<noteq> CHR ''{''" by auto
  then show ?case
    using Cons by (simp add: findall_skip del: findall.simps)
qed

lemma findall_skip2: "d \<noteq> CHR ''{'' \<Longrightarrow> findall (c # d # s) = findall (d # s)"
  by (simp add: match_here_def Let_def)

lemma findall_skip_lit: "ok_lit a \<Longrightarrow> findall (a @ s) = findall s"
proof (induction a rule: ok_lit.induct)
  case 1
  then show ?case by simp
next
  case (2 c)
  then show ?case by (simp add: findall_skip del: findall.simps)
next
  case (3 c d a)
  show ?case
  proof (cases "c = CHR ''{''")
    case True
    then have "d \<noteq> CHR ''{''" using 3(2) by simp
    then show ?thesis
      using 3 by (simp add: findall_skip2 del: findall.simps)
  next
    case False
    then show ?thesis
      using 3 by (simp add: findall_skip del: findall.simps)
  qed
qed

lemma match_here_token:
  assumes "CHR ''}'' \<notin> set k" "k \<noteq> []"
  shows "match_here (token k @ rest) = Some (token k)"
  using assms
  by (simp add: match_here_def token_Cons takeWhile_close dropWhile_close)

lemma findall_token:
  assumes "CHR ''}'' \<notin> set k" "k \<noteq> []"
  shows "findall (token k @ rest) = token k # findall rest"
proof -
  have "findall (token k @ rest) = token k # findall (drop (length (token k)) (token k @ rest))"
    using match_here_token [OF assms, of rest] by (simp add: token_Cons)
  then show ?thesis by simp
qed

lemma findall_empty_token: "findall (token [] @ rest) = findall rest"
proof -
  have "match_here (token [] @ rest) = None"
    by (simp add: match_here_def token_Cons)
  then have "findall (token [] @ rest) = findall (''{}}'' @ rest)"
    by (simp add: token_Cons)
  also have "\<dots> = findall (''}}'' @ rest)"
    by (simp add: match_here_def)
  also have "\<dots> = findall rest"
    by (intro findall_skip_text) (simp add: no_open_def)
  finally show ?thesis .
qed

lemma findall_render:
  assumes "plain_template segs"
  shows "findall (render segs) = map render_seg (filter unresolved segs)"
  using assms
proof (induction segs)
  case Nil
  then show ?case by (simp add: render_Nil)
next
  case (Cons seg segs)
  have IH: "findall (render segs) = map render_seg (filter unresolved segs)"
    by (rule Cons.IH) (use Cons.prems in \<open>simp add: plain_template_def\<close>)
  show ?case
  proof (cases seg)
    case (Lit s)
    then have "ok_lit s" using Cons.prems by (simp add: plain_template_def)
    then show ?thesis
      using Lit IH by (simp add: render_Cons findall_skip_lit)
  next
    case (Tok k)
    then have k: "CHR ''}'' \<notin> set k"
      using Cons.prems by (simp add: plain_template_def brace_free_def)
    show ?thesis
    proof (cases "k = []")
      case True
      then show ?thesis
        using Tok IH by (simp add: render_Cons findall_empty_token)
    next
      case False
      then show ?thesis
        using Tok IH by (simp add: render_Cons findall_token [OF k])
    qed
  qed
qed

lemma match_here_Some:
  assumes "match_here s = Some m"
  shows "\<exists>k. m = token k \<and> k \<noteq> [] \<and> CHR ''}'' \<notin> set k"
proof -
  obtain c1 c2 r where s: "s = c1 # c2 # r"
    using assms by (auto simp: match_here_def split: list.splits)
  let ?k = "takeWhile (\<lambda>c. c \<noteq> CHR ''}'') r"
  have "m = token ?k" "?k \<noteq> []"
    using assms s by (auto simp: match_here_def Let_def split: if_splits)
  moreover have "CHR ''}'' \<notin> set ?k"
    using set_takeWhileD by fastforce
  ultimately show ?thesis by blast
qed

lemma findall_members:
  "t \<in> set (findall s) \<Longrightarrow> \<exists>k. t = token k \<and> k \<noteq> [] \<and> CHR ''}'' \<notin> set k"
proof (induction s rule: findall.induct)
  case 1
  then show ?case by simp
next
  case (2 c cs)
  show ?case
  proof (cases "match_here (c # cs)")
    case None
    then show ?thesis using 2 by simp
  next
    case (Some m)
    then show ?thesis
      using 2 match_here_Some [OF Some] by auto
  qed
qed

lemma token_inj: "token k = token k' \<Longrightarrow> k = k'"
  by (simp add: token_def)

lemma plain_fill:
  assumes "plain_template segs" "plain_mapping flat"
  shows "plain_template (map (fill (map_of flat)) segs)"
proof -
  have v: "ok_lit v" if "map_of flat k = Some v" for k v
    using map_of_SomeD [OF that] assms(2) by (auto simp: plain_mapping_def list_all_iff)
  have "plain_seg (fill (map_of flat) seg)" if "plain_seg seg" for seg
    using that v by (cases seg) (auto split: option.splits)
  then show ?thesis
    using assms(1) by (simp add: plain_template_def list_all_iff)
qed

lemma fill_idem: "fill m (fill m seg) = fill m seg"
  by (cases seg) (auto split: option.splits)

lemma substitute_twice:
  assumes "plain_template segs" "plain_mapping flat"
  shows "substitute (substitute (render segs) flat) flat = substitute (render segs) flat"
proof -
  let ?segs = "map (fill (map_of flat)) segs"
  have "substitute (render ?segs) flat = render (map (fill (map_of flat)) ?segs)"
    using plain_fill [OF assms] assms(2) by (rule substitute_render)
  also have "\<dots> = render ?segs"
    by (simp add: fill_idem comp_def)
  finally show ?thesis
    by (simp only: substitute_render [OF assms])
qed

subsection \<open>The example templates, evaluated\<close>

lemma render_tpl_page: "render tpl_page = ''<style>p{color:{{c}}}</style><p>{{a.b}}</p> {{x}} {{y}}''"
  by code_simp

lemma plain_page: "plain_template tpl_page" "plain_mapping flat_page" "plain_mapping (rev flat_page)"
  by code_simp+

lemma map_of_rev_page: "map_of (rev flat_page) = map_of flat_page"
  by (rule map_of_rev_distinct) (simp add: flat_page_def)

lemma subst_page: "substitute ''<style>p{color:{{c}}}</style><p>{{a.b}}</p> {{x}} {{y}}'' flat_page = ''<style>p{color:#f{0}}</style><p>hello</p> 1 {{y}}''"
  by code_simp

lemma flatten_x: "flatten id [(''x'', JStr ''1'')] [] = [(''x'', ''1'')]"
  by code_simp

section \<open>Properties of the file system operations\<close>

lemma emit_simps [simp]:
  "files (emit msgs w) = files w" "dirs (emit msgs w) = dirs w"
  "printed (emit msgs w) = printed w @ msgs"
  by (simp_all add: emit_def)

lemma warn_files [simp]: "files (warn html w) = files w" "dirs (warn html w) = dirs w"
  by (simp_all add: warn_def Let_def)

lemma page_writable_warn [simp]: "page_writable (warn html w) slug = page_writable w slug"
  by (simp add: page_writable_def)

lemma makedirs_Some:
  assumes "makedirs w p = Some w1"
  shows "files w1 = files w" "printed w1 = printed w"
    "set (dirs w1) = set (dirs w) \<union> set (ancestors p)"
  using assms by (auto simp: makedirs_def split: if_splits)

lemma write_file_Some:
  assumes "write_file w p txt = Some w1"
  shows "map_of (files w1) p = Some txt" "printed w1 = printed w" "dirs w1 = dirs w"
  using assms by (auto simp: write_file_def map_of_dict_set split: if_splits)

lemma map_of_filter_fst:
  "P k \<Longrightarrow> map_of (filter (\<lambda>f. P (fst f)) fs) k = map_of fs k"
  by (induction fs) auto

lemma rmtree_Some:
  assumes "rmtree w p = Some w1" "\<not> inside p q"
  shows "map_of (files w1) q = map_of (files w) q" "printed w1 = printed w"
  using assms map_of_filter_fst [of "\<lambda>q. \<not> inside p q" q "files w"]
  by (auto simp: rmtree_def split: if_splits)

lemma inside_rebase: "inside src q \<Longrightarrow> inside dst (rebase src dst q)"
  by (auto simp: inside_def rebase_def prefix_def)

lemma map_of_fold_rebase:
  assumes "\<not> inside dst q" "\<forall>f \<in> set xs. inside src (fst f)"
  shows "map_of (fold (\<lambda>f fs. dict_set fs (rebase src dst (fst f)) (snd f)) xs fs) q
           = map_of fs q"
  using assms(2)
proof (induction xs arbitrary: fs)
  case Nil
  then show ?case by simp
next
  case (Cons x xs)
  have "rebase src dst (fst x) \<noteq> q"
    using Cons.prems assms(1) inside_rebase [of src "fst x" dst] by auto
  then show ?case
    using Cons by (simp add: map_of_dict_set)
qed

lemma copytree_Some:
  assumes "copytree w src dst = Some w1" "\<not> inside dst q"
  shows "map_of (files w1) q = map_of (files w) q" "printed w1 = printed w"
  using assms by (auto simp: copytree_def map_of_fold_rebase split: if_splits)

lemma copy_audio_Inr:
  assumes "copy_audio w src dst = Inr w1" "\<not> inside dst q"
  shows "map_of (files w1) q = map_of (files w) q" "prefix (printed w) (printed w1)"
  using assms
  by (auto simp: copy_audio_def rmtree_Some copytree_Some split: if_splits option.splits)

lemma copy_audio_Inl:
  assumes "copy_audio w src dst = Inl w1" "\<not> inside dst q"
  shows "map_of (files w1) q = map_of (files w) q" "printed w1 = printed w"
  using assms
  by (auto simp: copy_audio_def rmtree_Some split: if_splits option.splits)

lemma out_path_not_under: "\<not> inside (audio_dst slug) (out_path slug)"
  by (simp add: inside_def audio_dst_def out_path_def)

lemma length_ancestors: "a \<in> set (ancestors p) \<Longrightarrow> length a \<le> length p"
  by (auto simp: ancestors_def)

lemma out_path_not_ancestor: "out_path slug \<notin> set (ancestors (out_dir slug))"
  using length_ancestors [of "out_path slug" "out_dir slug"] by (auto simp: out_path_def)

section \<open>Properties of the run\<close>

lemma finish_cases:
  assumes "page_writable w slug"
  obtains w1 w2 where "makedirs w (out_dir slug) = Some w1"
    "write_file w1 (out_path slug) html = Some w2"
proof -
  obtain w1 where w1: "makedirs w (out_dir slug) = Some w1"
    using assms by (auto simp: page_writable_def makedirs_def)
  have "out_path slug \<notin> set (dirs w1)"
    using makedirs_Some(3) [OF w1] assms out_path_not_ancestor
    by (auto simp: page_writable_def)
  then obtain w2 where "write_file w1 (out_path slug) html = Some w2"
    by (auto simp: write_file_def)
  then show ?thesis using w1 that by blast
qed

lemma finish_page:
  assumes "page_writable w slug"
  shows "map_of (files (snd (finish slug html w))) (out_path slug) = Some html"
    and "fst (finish slug html w) = Inr () \<or> fst (finish slug html w) = Inl Uncaught"
proof -
  obtain w1 w2 where w1: "makedirs w (out_dir slug) = Some w1"
    and w2: "write_file w1 (out_path slug) html = Some w2"
    using finish_cases [OF assms] by blast
  have page: "map_of (files w2) (out_path slug) = Some html"
    using write_file_Some [OF w2] by simp
  show "map_of (files (snd (finish slug html w))) (out_path slug) = Some html"
  proof (cases "copy_audio w2 (audio_src slug) (audio_dst slug)")
    case (Inl w3)
    then show ?thesis
      using page copy_audio_Inl(1) [OF Inl out_path_not_under]
      by (simp add: finish_def w1 w2)
  next
    case (Inr w3)
    then show ?thesis
      using page copy_audio_Inr(1) [OF Inr out_path_not_under]
      by (simp add: finish_def w1 w2)
  qed
  show "fst (finish slug html w) = Inr () \<or> fst (finish slug html w) = Inl Uncaught"
    by (simp add: finish_def split: option.splits sum.splits)
qed

lemma finish_success:
  assumes "fst (finish slug html w) = Inr ()"
  shows "map_of (files (snd (finish slug html w))) (out_path slug) = Some html"
proof -
  obtain w1 w2 w3 where w1: "makedirs w (out_dir slug) = Some w1"
    and w2: "write_file w1 (out_path slug) html = Some w2"
    and w3: "copy_audio w2 (audio_src slug) (audio_dst slug) = Inr w3"
    using assms by (auto simp: finish_def split: option.splits sum.splits)
  show ?thesis
    using write_file_Some(1) [OF w2] copy_audio_Inr(1) [OF w3 out_path_not_under]
    by (simp add: finish_def w1 w2 w3)
qed

lemma generate_rendered:
  assumes "load_config json_load w (config_path slug) = Some d"
    and "read_file w template_path = Some html0"
  shows "generate json_load fstr slug w =
           finish slug (substitute html0 (flatten fstr d []))
             (warn (substitute html0 (flatten fstr d [])) w)"
proof -
  have "path_exists w (config_path slug)" "path_exists w template_path"
    using assms
    by (auto simp: path_exists_def load_config_def read_file_def split: option.splits)
  then show ?thesis
    using assms by (simp add: generate_def Let_def)
qed

lemma generate_success:
  assumes "fst (generate json_load fstr slug w) = Inr ()"
  shows "\<exists>d html0. load_config json_load w (config_path slug) = Some d
           \<and> read_file w template_path = Some html0
           \<and> read_file (snd (generate json_load fstr slug w)) (out_path slug)
               = Some (substitute html0 (flatten fstr d []))"
proof -
  obtain d html0 where d: "load_config json_load w (config_path slug) = Some d"
    and h: "read_file w template_path = Some html0"
    using assms by (auto simp: generate_def Let_def split: if_splits option.splits)
  have "fst (finish slug (substitute html0 (flatten fstr d []))
               (warn (substitute html0 (flatten fstr d [])) w)) = Inr ()"
    using assms by (simp only: generate_rendered [OF d h])
  then show ?thesis
    using finish_success d h by (simp add: generate_rendered [OF d h] read_file_def)
qed

lemma load_config_cong:
  "read_file w p = read_file w' p \<Longrightarrow> load_config json_load w p = load_config json_load w' p"
  by (simp add: load_config_def)

lemma same_fs_refl [simp]: "same_fs w w"
  by (simp add: same_fs_def)

lemma same_fs_emit: "same_fs w w' \<Longrightarrow> same_fs (emit a w) (emit b w')"
  by (simp add: same_fs_def)

lemma same_fs_warn: "same_fs (warn html w) w"
  by (simp add: same_fs_def)

lemma same_fs_makedirs:
  "same_fs w w' \<Longrightarrow> rel_option same_fs (makedirs w p) (makedirs w' p)"
  by (simp add: same_fs_def makedirs_def)

lemma same_fs_write_file:
  "same_fs w w' \<Longrightarrow> rel_option same_fs (write_file w p txt) (write_file w' p txt)"
  by (simp add: same_fs_def write_file_def)

lemma same_fs_rmtree:
  "same_fs w w' \<Longrightarrow> rel_option same_fs (rmtree w p) (rmtree w' p)"
  by (simp add: same_fs_def rmtree_def)

lemma same_fs_copytree:
  "same_fs w w' \<Longrightarrow> rel_option same_fs (copytree w src dst) (copytree w' src dst)"
  by (simp add: same_fs_def copytree_def path_exists_def)

lemma same_fs_copy_audio:
  assumes "same_fs w w'"
  shows "rel_sum same_fs same_fs (copy_audio w src dst) (copy_audio w' src dst)"
proof (cases "path_exists w src")
  case False
  then have "\<not> path_exists w' src"
    using assms by (simp add: same_fs_def path_exists_def)
  then show ?thesis
    using False assms by (simp add: copy_audio_def same_fs_emit)
next
  case True
  then have src: "path_exists w' src"
    using assms by (simp add: same_fs_def path_exists_def)
  let ?A = "if path_exists w dst then rmtree w dst else Some w"
  let ?A' = "if path_exists w' dst then rmtree w' dst else Some w'"
  have "path_exists w dst = path_exists w' dst"
    using assms by (simp add: same_fs_def path_exists_def)
  then have rel: "rel_option same_fs ?A ?A'"
    using assms same_fs_rmtree [OF assms, of dst] by simp
  show ?thesis
  proof (cases ?A)
    case None
    then have "?A' = None" using rel by simp
    then show ?thesis
      using None True src assms by (simp add: copy_audio_def)
  next
    case (Some w1)
    then obtain w1' where w1': "?A' = Some w1'" and s1: "same_fs w1 w1'"
      using rel by (auto simp: option_rel_Some1)
    show ?thesis
    proof (cases "copytree w1 src dst")
      case None
      then have "copytree w1' src dst = None"
        using same_fs_copytree [OF s1, of src dst] by simp
      then show ?thesis
        using None Some w1' True src s1 by (simp add: copy_audio_def)
    next
      case w2: (Some w2)
      then obtain w2' where w2': "copytree w1' src dst = Some w2'" and s2: "same_fs w2 w2'"
        using same_fs_copytree [OF s1, of src dst] by (auto simp: option_rel_Some1)
      show ?thesis
        using Some w1' w2 w2' True src s2 by (simp add: copy_audio_def same_fs_emit)
    qed
  qed
qed

lemma same_fs_finish:
  assumes "same_fs w w'"
  shows "fst (finish slug html w) = fst (finish slug html w')"
    and "same_fs (snd (finish slug html w)) (snd (finish slug html w'))"
proof -
  have "fst (finish slug html w) = fst (finish slug html w')
        \<and> same_fs (snd (finish slug html w)) (snd (finish slug html w'))"
  proof (cases "makedirs w (out_dir slug)")
    case None
    then have "makedirs w' (out_dir slug) = None"
      using same_fs_makedirs [OF assms, of "out_dir slug"] by simp
    then show ?thesis using None assms by (simp add: finish_def)
  next
    case (Some w1)
    then obtain w1' where w1': "makedirs w' (out_dir slug) = Some w1'" and s1: "same_fs w1 w1'"
      using same_fs_makedirs [OF assms, of "out_dir slug"] by (auto simp: option_rel_Some1)
    show ?thesis
    proof (cases "write_file w1 (out_path slug) html")
      case None
      then have "write_file w1' (out_path slug) html = None"
        using same_fs_write_file [OF s1, of "out_path slug" html] by simp
      then show ?thesis using None Some w1' s1 by (simp add: finish_def)
    next
      case w2: (Some w2)
      then obtain w2' where w2': "write_file w1' (out_path slug) html = Some w2'"
        and s2: "same_fs w2 w2'"
        using same_fs_write_file [OF s1, of "out_path slug" html]
        by (auto simp: option_rel_Some1)
      note rel = same_fs_copy_audio [OF s2, of "audio_src slug" "audio_dst slug"]
      show ?thesis
      proof (cases "copy_audio w2 (audio_src slug) (audio_dst slug)")
        case (Inl w3)
        then obtain w3' where "copy_audio w2' (audio_src slug) (audio_dst slug) = Inl w3'"
          and "same_fs w3 w3'"
          using rel by (cases "copy_audio w2' (audio_src slug) (audio_dst slug)") auto
        then show ?thesis using Inl Some w1' w2 w2' by (simp add: finish_def)
      next
        case (Inr w3)
        then obtain w3' where "copy_audio w2' (audio_src slug) (audio_dst slug) = Inr w3'"
          and "same_fs w3 w3'"
          using rel by (cases "copy_audio w2' (audio_src slug) (audio_dst slug)") auto
        then show ?thesis
          using Inr Some w1' w2 w2' by (simp add: finish_def same_fs_emit)
      qed
    qed
  qed
  then show "fst (finish slug html w) = fst (finish slug html w')"
    and "same_fs (snd (finish slug html w)) (snd (finish slug html w'))"
    by simp_all
qed

lemma finish_printed: "prefix (printed w) (printed (snd (finish slug html w)))"
proof (cases "makedirs w (out_dir slug)")
  case None
  then show ?thesis by (simp add: finish_def)
next
  case (Some w1)
  show ?thesis
  proof (cases "write_file w1 (out_path slug) html")
    case None
    then show ?thesis using Some makedirs_Some(2) [OF Some] by (simp add: finish_def)
  next
    case w2: (Some w2)
    have pr: "printed w2 = printed w"
      using write_file_Some(2) [OF w2] makedirs_Some(2) [OF Some] by simp
    show ?thesis
    proof (cases "copy_audio w2 (audio_src slug) (audio_dst slug)")
      case (Inl w3)
      then show ?thesis
        using Some w2 pr copy_audio_Inl(2) [OF Inl out_path_not_under] by (simp add: finish_def)
    next
      case (Inr w3)
      have "prefix (printed w) (printed w3)"
        using copy_audio_Inr(2) [OF Inr out_path_not_under] pr by simp
      then show ?thesis
        using Some w2 Inr by (simp add: finish_def)
    qed
  qed
qed

subsection \<open>The example worlds, evaluated\<close>

lemma acme_nope: "\<not> path_exists world_acme (config_path ''nope'')"
  by code_simp

lemma no_template: "path_exists world_no_template (config_path ''acme'')"
  "\<not> path_exists world_no_template template_path"
  by code_simp+

lemma acme_config:
  "load_config load_acme world_acme (config_path ''acme'')
     = Some [(''x'', JStr ''1''), (''b'', JDict [(''c'', JInt 2)])]"
  by code_simp

lemma acme_template:
  "read_file world_acme template_path = Some ''<h1>{{x}}</h1>{{b.c}} {{z}} {{y}} {{z}}''"
  by code_simp

lemma acme_html:
  "substitute ''<h1>{{x}}</h1>{{b.c}} {{z}} {{y}} {{z}}''
     (flatten id [(''x'', JStr ''1''), (''b'', JDict [(''c'', JInt 2)])] [])
   = ''<h1>1</h1>2 {{z}} {{y}} {{z}}''"
  by code_simp

lemma acme_remaining:
  "findall ''<h1>1</h1>2 {{z}} {{y}} {{z}}'' = [''{{z}}'', ''{{y}}'', ''{{z}}'']"
  by code_simp

lemma acme_sorted:
  "sorted_list_of_set (set [''{{z}}'', ''{{y}}'', ''{{z}}'']) = [''{{y}}'', ''{{z}}'']"
  "card (set [''{{z}}'', ''{{y}}'', ''{{z}}'']) = 2"
  by code_simp+

lemma acme_writable: "page_writable world_acme ''acme''"
  by code_simp

lemma acme_runs:
  "fst (generate load_acme id ''acme'' world_acme) = Inr ()"
  "fst (generate load_acme id ''acme'' world_again) = Inr ()"
  by code_simp+

lemma again_same:
  "read_file world_acme (config_path ''acme'') = read_file world_again (config_path ''acme'')"
  "read_file world_acme template_path = read_file world_again template_path"
  by code_simp+

lemma again_differs: "world_again \<noteq> world_acme"
  by code_simp

section \<open>Claims about flatten\<close>

text \<open>
  C1 (amended). For a document whose top-level keys are not empty, the keys of
  \<open>flatten d ""\<close> are exactly the dotted root-to-leaf paths of \<open>d\<close>. When moreover no key on
  such a path holds a dot (and the document is a dictionary at every level, without a key
  twice), the value stored at the dotted form of each path is the \<^verbatim>\<open>str\<close> of the leaf
  the path ends at. An empty nested dictionary adds no entry.
\<close>

theorem flatten_paths:
  assumes "top_keys_nonempty d"
  shows "fst ` set (flatten fstr d []) = dotted ` fst ` set (leaves d)
       \<and> (wf_dict d \<and> dot_free_paths d \<longrightarrow>
            (\<forall>(p, l) \<in> set (leaves d). map_of (flatten fstr d []) (dotted p) = Some (py_str fstr l)))
       \<and> flatten fstr ((key, JDict []) # d) [] = flatten fstr d []"
proof (intro conjI impI)
  let ?E = "map (\<lambda>pl. (dotted (fst pl), py_str fstr (snd pl))) (leaves d)"
  have E: "entries fstr [] d = ?E"
    using assms by (rule entries_top)
  show "fst ` set (flatten fstr d []) = dotted ` fst ` set (leaves d)"
    by (simp add: flatten_keys E image_image)
  show "flatten fstr ((key, JDict []) # d) [] = flatten fstr d []"
    by (rule flatten_empty_branch)
  assume wf: "wf_dict d \<and> dot_free_paths d"
  have dist: "distinct (map fst ?E)"
    using dotted_paths_distinct [of d] wf by (simp add: comp_def)
  have "map_of (flatten fstr d []) = map_of ?E"
    by (simp only: flatten_map_of E map_of_rev_distinct [OF dist])
  moreover have "map_of ?E (dotted p) = Some (py_str fstr l)" if "(p, l) \<in> set (leaves d)" for p l
    using dist that by (intro map_of_is_SomeI) force+
  ultimately show "\<forall>(p, l) \<in> set (leaves d). map_of (flatten fstr d []) (dotted p) = Some (py_str fstr l)"
    by auto
qed

theorem flatten_paths_witness:
  "top_keys_nonempty doc_brand \<and> wf_dict doc_brand \<and> dot_free_paths doc_brand
   \<and> fst ` set (flatten id doc_brand []) = {''brand.primary'', ''brand.sizes'', ''n''}
   \<and> map_of (flatten id doc_brand []) ''brand.primary'' = Some ''#fff''
   \<and> map_of (flatten id doc_brand []) ''n'' = Some ''3''
   \<and> flatten id ((''e'', JDict []) # doc_brand) [] = flatten id doc_brand []"
  using flatten_paths [of doc_brand id "''e''"] ok_doc_brand
  by (simp add: leaves_doc_brand dotted_def py_str_def) (simp add: flatten_doc_brand)

text \<open>
  The claim as written fails where a key holds a dot: in \<^verbatim>\<open>{"a.b": 1, "a": {"b": 2}}\<close>
  the path \<open>["a.b"]\<close> ends at the leaf 1, and the value stored at its dotted form is "2".
\<close>

theorem flatten_paths_counterexample:
  "([''a.b''], JInt 1) \<in> set (leaves doc_collide)
   \<and> map_of (flatten id doc_collide []) (dotted [''a.b'']) = Some ''2''
   \<and> py_str id (JInt 1) = ''1''"
  by (simp add: leaves_doc_collide flatten_doc_collide dotted_def) code_simp

text \<open>
  C4 (amended). In a document with no key twice at a level, no dot in a key on a
  root-to-leaf path and no empty top-level key, two different root-to-leaf paths get
  different keys, and \<open>flatten\<close> returns one entry for each leaf, in the order of the
  document: no entry overwrites another.
\<close>

theorem flatten_keys_distinct:
  assumes "wf_dict d" "dot_free_paths d" "top_keys_nonempty d"
  shows "(\<forall>p \<in> fst ` set (leaves d). \<forall>q \<in> fst ` set (leaves d).
            p \<noteq> q \<longrightarrow> path_key [] p \<noteq> path_key [] q)
       \<and> flatten fstr d [] = entries fstr [] d"
proof
  have "distinct (map (\<lambda>pl. dotted (fst pl)) (leaves d))"
    using assms(1,2) by (rule dotted_paths_distinct)
  then have "distinct (map fst (entries fstr [] d))"
    by (simp add: entries_top [OF assms(3)] comp_def)
  then show "flatten fstr d [] = entries fstr [] d"
    using flatten_loop_exact [of "[]" fstr "[]" d] by (simp add: flatten_def)
  have pk: "path_key [] p = dotted p" if "p \<in> fst ` set (leaves d)" for p
    using that path_key_leaves [OF assms(3)] by auto
  show "\<forall>p \<in> fst ` set (leaves d). \<forall>q \<in> fst ` set (leaves d).
            p \<noteq> q \<longrightarrow> path_key [] p \<noteq> path_key [] q"
    using dotted_inj_on_paths [OF assms(2)] pk by (auto simp: inj_on_def)
qed

theorem flatten_keys_distinct_witness:
  "wf_dict doc_brand \<and> dot_free_paths doc_brand \<and> top_keys_nonempty doc_brand
   \<and> path_key [] [''brand'', ''primary''] \<noteq> path_key [] [''brand'', ''sizes'']
   \<and> flatten id doc_brand [] = entries id [] doc_brand"
proof -
  have mem: "[''brand'', ''primary''] \<in> fst ` set (leaves doc_brand)"
    "[''brand'', ''sizes''] \<in> fst ` set (leaves doc_brand)"
    by (simp_all add: leaves_doc_brand)
  have ne: "[''brand'', ''primary''] \<noteq> [''brand'', ''sizes'']"
    by simp
  note inst = flatten_keys_distinct [OF ok_doc_brand(2,3,1), of id]
  have "path_key [] [''brand'', ''primary''] \<noteq> path_key [] [''brand'', ''sizes'']"
    using inst [THEN conjunct1, THEN bspec, OF mem(1), THEN bspec, OF mem(2)] ne
    by (rule mp)
  then show ?thesis
    using inst [THEN conjunct2] ok_doc_brand by (intro conjI)
qed

text \<open>
  Without the condition on dots the claim fails: the two paths \<open>["a.b"]\<close> and
  \<open>["a", "b"]\<close> of \<^verbatim>\<open>{"a.b": 1, "a": {"b": 2}}\<close> get the same key, and the second
  entry overwrites the first.
\<close>

theorem flatten_keys_distinct_counterexample:
  "[''a.b''] \<in> fst ` set (leaves doc_collide)
   \<and> [''a'', ''b''] \<in> fst ` set (leaves doc_collide)
   \<and> [''a.b''] \<noteq> [''a'', ''b'']
   \<and> path_key [] [''a.b''] = path_key [] [''a'', ''b'']
   \<and> flatten id doc_collide [] = [(''a.b'', ''2'')]"
  by (simp add: leaves_doc_collide flatten_doc_collide path_key_def full_key_def)

text \<open>
  C9. A value that is not a dictionary is stored under the one key of its item as its
  \<^verbatim>\<open>str\<close>, whatever its kind; \<open>py_str\<close> is total, as \<^verbatim>\<open>str\<close> is on the values that
  \<^verbatim>\<open>json.load\<close> returns. A list is such a value: it is rendered whole and its elements
  get no keys of their own.
\<close>

theorem flatten_leaf_str:
  assumes "\<not> is_dict v"
  shows "flatten fstr (d @ [(key, v)]) pre
           = dict_set (flatten fstr d pre) (full_key pre key) (py_str fstr v)
       \<and> flatten fstr (d @ [(key, JList xs)]) pre
           = dict_set (flatten fstr d pre) (full_key pre key)
               (''['' @ join_with '', '' (map (py_repr fstr) xs) @ '']'')"
proof -
  have "flatten fstr (d @ [(key, u)]) pre
          = dict_set (flatten fstr d pre) (full_key pre key) (py_str fstr u)"
    if "\<not> is_dict u" for u
    using that
    by (simp add: flatten_def flatten_loop_append flatten_loop_leaf del: flatten_loop.simps(2))
  from this [OF assms] this [of "JList xs"] show ?thesis
    by (simp add: py_str_def)
qed

theorem flatten_leaf_str_witness:
  "\<not> is_dict (JList [JInt 1, JDict [(''k'', JNull :: string jvalue)]])
   \<and> flatten id ([(''a'', JBool True)] @ [(''xs'', JList [JInt 1, JDict [(''k'', JNull)]])]) ''p''
     = [(''p.a'', ''True''),
        (''p.xs'', ''[1, {'' @ [CHR 0x27] @ ''k'' @ [CHR 0x27] @ '': None}]'')]"
proof -
  have "flatten id [(''a'', JBool True)] ''p'' = [(''p.a'', ''True'')]"
    by code_simp
  moreover have "py_str id (JList [JInt 1, JDict [(''k'', JNull)]])
                   = ''[1, {'' @ [CHR 0x27] @ ''k'' @ [CHR 0x27] @ '': None}]''"
    by code_simp
  ultimately show ?thesis
    using flatten_leaf_str [of "JList [JInt 1, JDict [(''k'', JNull)]]" id
        "[(''a'', JBool True)]" "''xs''" "''p''", THEN conjunct1]
    by (simp add: full_key_def)
qed

section \<open>Claims about substitution and the scan\<close>

text \<open>
  C2 (amended). Take a template in which two opening braces always open a
  placeholder: the text between placeholders has no two opening braces side by side and
  does not end in one (it may hold single braces, as a style sheet does), and the keys of
  the placeholders are free of braces. Take a mapping whose keys are free of braces and
  whose values are such text. Then \<open>substitute\<close> puts each value in the place of
  every placeholder of its key, verbatim and all at once, and the result is the same for
  every order of the items of the mapping.
\<close>

theorem substitute_order:
  assumes "plain_template segs" "plain_mapping flat" "plain_mapping flat'"
    and "map_of flat' = map_of flat"
  shows "substitute (render segs) flat = render (map (fill (map_of flat)) segs)
       \<and> substitute (render segs) flat' = substitute (render segs) flat"
  using assms by (simp add: substitute_render)

theorem substitute_order_witness:
  "plain_template tpl_page \<and> plain_mapping flat_page \<and> plain_mapping (rev flat_page)
   \<and> map_of (rev flat_page) = map_of flat_page
   \<and> substitute (render tpl_page) (rev flat_page) = ''<style>p{color:#f{0}}</style><p>hello</p> 1 {{y}}''
   \<and> substitute (render tpl_page) flat_page = ''<style>p{color:#f{0}}</style><p>hello</p> 1 {{y}}''"
  using substitute_order [OF plain_page map_of_rev_page] plain_page map_of_rev_page
  by (simp add: render_tpl_page subst_page)

text \<open>
  Both conditions are needed. With \<^verbatim>\<open>{"a": "{{b}}", "b": "X"}\<close> the placeholder that
  the value of \<open>a\<close> brings in is replaced by the value of \<open>b\<close>, and with the items in the
  other order it is not. With \<^verbatim>\<open>{"a": "y", "xy": "Z"}\<close>, whose values hold no brace, the
  template \<^verbatim>\<open>{{x{{a}}}}\<close> becomes \<^verbatim>\<open>Z\<close> in one order and \<^verbatim>\<open>{{xy}}\<close> in the other.
\<close>

theorem substitute_order_counterexample:
  "substitute ''{{a}}'' flat_chain = ''X'' \<and> substitute ''{{a}}'' (rev flat_chain) = ''{{b}}''
   \<and> plain_mapping flat_nest \<and> plain_mapping (rev flat_nest)
   \<and> substitute ''{{x{{a}}}}'' flat_nest = ''Z''
   \<and> substitute ''{{x{{a}}}}'' (rev flat_nest) = ''{{xy}}''"
  by code_simp

text \<open>
  C3 (amended). Take a template in which two opening braces always open a
  placeholder: the text between placeholders has no two opening braces side by side and
  does not end in one (it may hold single braces, as a style sheet does), and the keys of
  the placeholders are free of braces. Take a mapping whose keys are free of braces and
  whose values are such text. Then the output is the template with every
  placeholder whose key the mapping holds replaced by the value of the key, and the other
  placeholders left as they are; the scan of line 76 finds exactly the placeholders
  left whose key is not empty, in their order. For the template \<^verbatim>\<open>{{x}} {{y}}\<close> and the
  configuration \<^verbatim>\<open>{"x": "1"}\<close> the output is \<^verbatim>\<open>1 {{y}}\<close> and the scan finds \<^verbatim>\<open>{{y}}\<close>.
\<close>

theorem substitute_output:
  assumes "plain_template segs" "plain_mapping flat"
  shows "substitute (render segs) flat = render (map (fill (map_of flat)) segs)
       \<and> findall (substitute (render segs) flat)
           = map render_seg (filter unresolved (map (fill (map_of flat)) segs))"
  using assms by (simp add: substitute_render findall_render plain_fill)

theorem substitute_output_witness:
  "plain_template [Tok ''x'', Lit '' '', Tok ''y'']
   \<and> plain_mapping (flatten id [(''x'', JStr ''1'')] [])
   \<and> render [Tok ''x'', Lit '' '', Tok ''y''] = ''{{x}} {{y}}''
   \<and> substitute ''{{x}} {{y}}'' (flatten id [(''x'', JStr ''1'')] []) = ''1 {{y}}''
   \<and> findall (substitute ''{{x}} {{y}}'' (flatten id [(''x'', JStr ''1'')] [])) = [''{{y}}'']
   \<and> plain_template tpl_page \<and> plain_mapping flat_page
   \<and> findall (substitute (render tpl_page) flat_page) = [''{{y}}'']"
proof -
  let ?segs = "[Tok ''x'', Lit '' '', Tok ''y'']"
  let ?flat = "flatten id [(''x'', JStr ''1'')] []"
  have a: "plain_template ?segs" and b: "plain_mapping ?flat"
    by code_simp+
  have r: "render ?segs = ''{{x}} {{y}}''"
    by code_simp
  have m: "map (fill (map_of ?flat)) ?segs = [Lit ''1'', Lit '' '', Tok ''y'']"
    by (simp add: flatten_x)
  note inst = substitute_output [OF a b, unfolded m]
  have "substitute (render ?segs) ?flat = ''1 {{y}}''"
    using inst [THEN conjunct1] by (simp add: render_def token_def)
  moreover have "findall (substitute (render ?segs) ?flat) = [''{{y}}'']"
    using inst [THEN conjunct2] by (simp add: token_def)
  moreover have "findall (substitute (render tpl_page) flat_page) = [''{{y}}'']"
    using substitute_output [OF plain_page(1,2), THEN conjunct2]
    by (simp add: tpl_page_def flat_page_def token_def)
  ultimately show ?thesis
    using a b r plain_page(1,2) by (simp only: simp_thms)
qed

theorem substitute_output_counterexample:
  "substitute (render [Tok ''a'']) flat_chain = ''X''
   \<and> render (map (fill (map_of flat_chain)) [Tok ''a'']) = ''{{b}}''
   \<and> plain_mapping flat_nest
   \<and> render [Lit ''{{x'', Tok ''a'', Lit ''}}''] = ''{{x{{a}}}}''
   \<and> render (map (fill (map_of flat_nest)) [Lit ''{{x'', Tok ''a'', Lit ''}}'']) = ''{{xy}}''
   \<and> substitute ''{{x{{a}}}}'' flat_nest = ''Z''"
  by code_simp

text \<open>
  C5 (amended). Take a template in which two opening braces always open a
  placeholder: the text between placeholders has no two opening braces side by side and
  does not end in one (it may hold single braces, as a style sheet does), and the keys of
  the placeholders are free of braces. Take a mapping whose keys are free of braces and
  whose values are such text. Then substituting a second time with the same
  mapping changes nothing.
\<close>

theorem substitute_idempotent:
  assumes "plain_template segs" "plain_mapping flat"
  shows "substitute (substitute (render segs) flat) flat = substitute (render segs) flat"
  using assms by (rule substitute_twice)

theorem substitute_idempotent_witness:
  "plain_template tpl_page \<and> plain_mapping flat_page
   \<and> substitute (render tpl_page) flat_page = ''<style>p{color:#f{0}}</style><p>hello</p> 1 {{y}}''
   \<and> substitute ''<style>p{color:#f{0}}</style><p>hello</p> 1 {{y}}'' flat_page = ''<style>p{color:#f{0}}</style><p>hello</p> 1 {{y}}''"
  using substitute_idempotent [OF plain_page(1,2)] plain_page(1,2)
  by (simp add: render_tpl_page subst_page)

text \<open>
  For every template and mapping the claim fails: with the items \<^verbatim>\<open>{"b": "X", "a": "{{b}}"}\<close>
  the template \<^verbatim>\<open>{{a}}\<close> becomes \<^verbatim>\<open>{{b}}\<close>, and a second pass makes it \<^verbatim>\<open>X\<close>.
  With the items \<^verbatim>\<open>{"xy": "Z", "a": "y"}\<close> the template \<^verbatim>\<open>{{x{{a}}}}\<close> becomes
  \<^verbatim>\<open>{{xy}}\<close>, and a second pass makes it \<^verbatim>\<open>Z\<close>.
\<close>

theorem substitute_idempotent_counterexample:
  "substitute ''{{a}}'' (rev flat_chain) = ''{{b}}''
   \<and> substitute (substitute ''{{a}}'' (rev flat_chain)) (rev flat_chain) = ''X''
   \<and> plain_mapping (rev flat_nest)
   \<and> substitute ''{{x{{a}}}}'' (rev flat_nest) = ''{{xy}}''
   \<and> substitute (substitute ''{{x{{a}}}}'' (rev flat_nest)) (rev flat_nest) = ''Z''"
  by code_simp

text \<open>
  C10. Every string that the scan reports is a placeholder whose key is not empty and
  holds no closing brace. So \<^verbatim>\<open>{{}}\<close> is never reported, and neither is a placeholder
  whose key holds a closing brace.
\<close>

theorem findall_tokens:
  "(\<forall>t \<in> set (findall s). \<exists>k. t = token k \<and> k \<noteq> [] \<and> CHR ''}'' \<notin> set k)
   \<and> ''{{}}'' \<notin> set (findall s)
   \<and> (CHR ''}'' \<in> set k \<longrightarrow> token k \<notin> set (findall s))"
proof (intro conjI impI ballI)
  fix t assume "t \<in> set (findall s)"
  then show "\<exists>k. t = token k \<and> k \<noteq> [] \<and> CHR ''}'' \<notin> set k"
    by (rule findall_members)
next
  show "''{{}}'' \<notin> set (findall s)"
  proof
    assume "''{{}}'' \<in> set (findall s)"
    then obtain k where "''{{}}'' = token k" "k \<noteq> []"
      using findall_members by blast
    then show False by (simp add: token_def)
  qed
next
  assume k: "CHR ''}'' \<in> set k"
  show "token k \<notin> set (findall s)"
  proof
    assume "token k \<in> set (findall s)"
    then obtain k' where "token k = token k'" "CHR ''}'' \<notin> set k'"
      using findall_members by blast
    then show False using k token_inj by blast
  qed
qed

theorem findall_tokens_witness:
  "findall ''{{x}} {{}} {{a}b}}'' = [''{{x}}'']
   \<and> ''{{}}'' \<notin> set (findall ''{{x}} {{}} {{a}b}}'')
   \<and> CHR ''}'' \<in> set ''a}b''
   \<and> token ''a}b'' \<notin> set (findall ''{{x}} {{}} {{a}b}}'')"
proof -
  have "findall ''{{x}} {{}} {{a}b}}'' = [''{{x}}'']"
    by code_simp
  moreover have "CHR ''}'' \<in> set ''a}b''"
    by simp
  ultimately show ?thesis
    using findall_tokens [of "''{{x}} {{}} {{a}b}}''" "''a}b''"] by blast
qed

section \<open>Claims about the run\<close>

text \<open>
  C6. When the configuration of the client does not exist, the run ends with
  \<open>ConfigNotFound\<close>, whether the template exists or not; when the configuration exists and
  the template does not, it ends with \<open>TemplateNotFound\<close>. In both cases the files and
  the directories are those from before the run: nothing is written.
\<close>

theorem generate_missing_inputs:
  "(\<not> path_exists w (config_path slug) \<longrightarrow>
      fst (generate json_load fstr slug w) = Inl ConfigNotFound
      \<and> files (snd (generate json_load fstr slug w)) = files w
      \<and> dirs (snd (generate json_load fstr slug w)) = dirs w)
   \<and> (path_exists w (config_path slug) \<and> \<not> path_exists w template_path \<longrightarrow>
      fst (generate json_load fstr slug w) = Inl TemplateNotFound
      \<and> files (snd (generate json_load fstr slug w)) = files w
      \<and> dirs (snd (generate json_load fstr slug w)) = dirs w)"
  by (simp add: generate_def)

theorem generate_missing_inputs_witness:
  "\<not> path_exists world_acme (config_path ''nope'')
   \<and> fst (generate load_acme id ''nope'' world_acme) = Inl ConfigNotFound
   \<and> files (snd (generate load_acme id ''nope'' world_acme)) = files world_acme
   \<and> dirs (snd (generate load_acme id ''nope'' world_acme)) = dirs world_acme
   \<and> path_exists world_no_template (config_path ''acme'')
   \<and> \<not> path_exists world_no_template template_path
   \<and> fst (generate load_acme id ''acme'' world_no_template) = Inl TemplateNotFound
   \<and> files (snd (generate load_acme id ''acme'' world_no_template)) = files world_no_template
   \<and> dirs (snd (generate load_acme id ''acme'' world_no_template)) = dirs world_no_template"
  using generate_missing_inputs [of world_acme "''nope''" load_acme id]
    generate_missing_inputs [of world_no_template "''acme''" load_acme id]
    acme_nope no_template
  by blast

text \<open>
  C7. When the configuration and the template are loaded and the scan finds placeholders
  in the rendered text, the run prints the warning, with each distinct placeholder once
  and in sorted order, and goes on: it ends, and leaves the files and directories, as
  lines 83 to 103 do without the warning, and where the file system lets the page be
  written the output page holds the rendered text.
\<close>

theorem generate_warning:
  assumes "load_config json_load w (config_path slug) = Some d"
    and "read_file w template_path = Some html0"
    and "html = substitute html0 (flatten fstr d [])"
    and "findall html \<noteq> []"
  shows "prefix (printed w @ Unreplaced (card (set (findall html)))
                   # map Placeholder (sorted_list_of_set (set (findall html))))
           (printed (snd (generate json_load fstr slug w)))
       \<and> sorted (sorted_list_of_set (set (findall html)))
       \<and> distinct (sorted_list_of_set (set (findall html)))
       \<and> set (sorted_list_of_set (set (findall html))) = set (findall html)
       \<and> fst (generate json_load fstr slug w) = fst (finish slug html w)
       \<and> same_fs (snd (generate json_load fstr slug w)) (snd (finish slug html w))
       \<and> (page_writable w slug \<longrightarrow>
            read_file (snd (generate json_load fstr slug w)) (out_path slug) = Some html)"
proof -
  have g: "generate json_load fstr slug w = finish slug html (warn html w)"
    using generate_rendered [OF assms(1,2)] assms(3) by simp
  have "printed (warn html w) = printed w @ Unreplaced (card (set (findall html)))
                   # map Placeholder (sorted_list_of_set (set (findall html)))"
    using assms(4) by (simp add: warn_def Let_def)
  then have "prefix (printed w @ Unreplaced (card (set (findall html)))
                   # map Placeholder (sorted_list_of_set (set (findall html))))
           (printed (snd (generate json_load fstr slug w)))"
    using finish_printed [of "warn html w" slug html] by (simp add: g)
  moreover have "page_writable w slug \<longrightarrow>
      read_file (snd (generate json_load fstr slug w)) (out_path slug) = Some html"
    using finish_page [of "warn html w" slug html] by (simp add: g read_file_def)
  ultimately show ?thesis
    using same_fs_finish [OF same_fs_warn, of slug html html w] by (simp add: g)
qed

theorem generate_warning_witness:
  "load_config load_acme world_acme (config_path ''acme'')
     = Some [(''x'', JStr ''1''), (''b'', JDict [(''c'', JInt 2)])]
   \<and> read_file world_acme template_path = Some ''<h1>{{x}}</h1>{{b.c}} {{z}} {{y}} {{z}}''
   \<and> findall ''<h1>1</h1>2 {{z}} {{y}} {{z}}'' \<noteq> []
   \<and> page_writable world_acme ''acme''
   \<and> prefix [Unreplaced 2, Placeholder ''{{y}}'', Placeholder ''{{z}}'']
        (printed (snd (generate load_acme id ''acme'' world_acme)))
   \<and> read_file (snd (generate load_acme id ''acme'' world_acme)) (out_path ''acme'')
       = Some ''<h1>1</h1>2 {{z}} {{y}} {{z}}''"
proof -
  have ne: "findall ''<h1>1</h1>2 {{z}} {{y}} {{z}}'' \<noteq> []"
    unfolding acme_remaining by simp
  have pr: "printed world_acme = []"
    by (simp add: world_acme_def)
  note inst = generate_warning [OF acme_config acme_template acme_html [symmetric] ne,
      unfolded acme_remaining acme_sorted pr append_Nil list.map]
  show ?thesis
    using inst acme_config acme_template ne acme_writable by blast
qed

text \<open>
  C8. Two runs for the same client that read the same configuration text and the same
  template text and both succeed leave the same text in the output page, whatever else
  differs between the two worlds.
\<close>

theorem generate_deterministic:
  assumes "read_file w (config_path slug) = read_file w' (config_path slug)"
    and "read_file w template_path = read_file w' template_path"
    and "fst (generate json_load fstr slug w) = Inr ()"
    and "fst (generate json_load fstr slug w') = Inr ()"
  shows "read_file (snd (generate json_load fstr slug w)) (out_path slug)
           = read_file (snd (generate json_load fstr slug w')) (out_path slug)
       \<and> read_file (snd (generate json_load fstr slug w)) (out_path slug) \<noteq> None"
proof -
  obtain d html0 where a: "load_config json_load w (config_path slug) = Some d"
    "read_file w template_path = Some html0"
    "read_file (snd (generate json_load fstr slug w)) (out_path slug)
       = Some (substitute html0 (flatten fstr d []))"
    using generate_success [OF assms(3)] by blast
  obtain d' html0' where b: "load_config json_load w' (config_path slug) = Some d'"
    "read_file w' template_path = Some html0'"
    "read_file (snd (generate json_load fstr slug w')) (out_path slug)
       = Some (substitute html0' (flatten fstr d' []))"
    using generate_success [OF assms(4)] by blast
  have "d' = d" "html0' = html0"
    using a(1,2) b(1,2) assms(2) load_config_cong [OF assms(1), of json_load] by simp_all
  then show ?thesis
    using a(3) b(3) by simp
qed

theorem generate_deterministic_witness:
  "read_file world_acme (config_path ''acme'') = read_file world_again (config_path ''acme'')
   \<and> read_file world_acme template_path = read_file world_again template_path
   \<and> fst (generate load_acme id ''acme'' world_acme) = Inr ()
   \<and> fst (generate load_acme id ''acme'' world_again) = Inr ()
   \<and> world_again \<noteq> world_acme
   \<and> read_file (snd (generate load_acme id ''acme'' world_acme)) (out_path ''acme'')
       = read_file (snd (generate load_acme id ''acme'' world_again)) (out_path ''acme'')"
  using generate_deterministic [OF again_same acme_runs] again_same acme_runs again_differs
  by blast

end
